theory Spec2Isabelle
  imports Complex_Main
begin

unbundle bit_operations_syntax

section \<open>Values shared by both day-10 scripts\<close>

text \<open>
  The two scripts \<^verbatim>\<open>day10.py\<close> and \<^verbatim>\<open>day10_chatgpt.py\<close> solve the same
  button-machine puzzle. A machine is a target and a list of buttons; a button is the
  list of the indices it affects, in the order and with the repetitions of the input line.
  The regular expressions that cut a line into these lists are upstream of everything
  modelled here: the functions below start from the parsed lists.

  Python exceptions are values of \<open>py_error\<close>; a number that may be the float
  \<^verbatim>\<open>float('inf')\<close> is a \<open>py_num\<close>. The entries of the 0/1 integer arrays of the
  toggle model are booleans (\<open>True\<close> is 1), so that \<^verbatim>\<open>a ^ b\<close> is \<open>a \<noteq> b\<close> and
  \<^verbatim>\<open>x.sum()\<close> counts the \<open>True\<close> entries.
\<close>

datatype py_error = IndexError | ValueError

datatype py_num = PyInt int | PyInf

text \<open>\<^verbatim>\<open>a < b\<close> on such numbers; nothing is below an integer but a smaller integer.\<close>

fun py_less :: "py_num \<Rightarrow> py_num \<Rightarrow> bool" where
  "py_less (PyInt a) (PyInt b) = (a < b)"
| "py_less (PyInt a) PyInf = True"
| "py_less PyInf b = False"

text \<open>\<^verbatim>\<open>min(a, b)\<close>: the first argument unless the second is smaller.\<close>

definition py_min :: "py_num \<Rightarrow> py_num \<Rightarrow> py_num" where
  "py_min a b = (if py_less b a then b else a)"

text \<open>\<^verbatim>\<open>total += value\<close>: an integer sum, or the float infinity once either side is.\<close>

fun py_add :: "py_num \<Rightarrow> py_num \<Rightarrow> py_num" where
  "py_add (PyInt a) (PyInt b) = PyInt (a + b)"
| "py_add PyInf b = PyInf"
| "py_add a PyInf = PyInf"

text \<open>
  \<^verbatim>\<open>for idx in btn: row[idx] ^= 1\<close>, the loop both scripts use to apply one button to
  a 0/1 list (\<^verbatim>\<open>state[light] ^= 1\<close> in \<^verbatim>\<open>solve_gf2\<close>, \<^verbatim>\<open>row[idx] ^= 1\<close> in
  \<^verbatim>\<open>parse_line_part1\<close>). An index outside the list raises IndexError.
\<close>

fun toggle_all :: "bool list \<Rightarrow> nat list \<Rightarrow> py_error + bool list" where
  "toggle_all state [] = Inr state"
| "toggle_all state (light # button) =
     (if light < length state then toggle_all (state[light := (state ! light \<noteq> True)]) button
      else Inl IndexError)"

section \<open>The toggle model\<close>

subsection \<open>\<^verbatim>\<open>solve_gf2\<close> (day10.py): all \<open>2^m\<close> subsets\<close>

text \<open>
  The inner loop \<^verbatim>\<open>for button_idx in range(n_buttons)\<close>: a button whose bit is set in
  the subset \<open>msk\<close> (the source's \<^verbatim>\<open>mask\<close>) is counted and applied to the state.
\<close>

fun press_selected ::
  "nat \<Rightarrow> nat list list \<Rightarrow> nat list \<Rightarrow> bool list \<Rightarrow> int \<Rightarrow> py_error + bool list \<times> int" where
  "press_selected msk buttons [] state presses = Inr (state, presses)"
| "press_selected msk buttons (button_idx # rest) state presses =
     (if msk AND push_bit button_idx 1 \<noteq> 0
      then (case toggle_all state (buttons ! button_idx) of
              Inl e \<Rightarrow> Inl e
            | Inr state' \<Rightarrow> press_selected msk buttons rest state' (presses + 1))
      else press_selected msk buttons rest state presses)"

text \<open>
  The outer loop \<^verbatim>\<open>for mask in range(1 << n_buttons)\<close>: each subset starts from the
  all-zero state, and a subset that reaches the target lowers \<open>min_presses\<close>.
\<close>

fun scan_masks :: "bool list \<Rightarrow> nat list list \<Rightarrow> nat list \<Rightarrow> py_num \<Rightarrow> py_error + py_num" where
  "scan_masks target buttons [] min_presses = Inr min_presses"
| "scan_masks target buttons (msk # masks) min_presses =
     (case press_selected msk buttons [0..<length buttons] (replicate (length target) False) 0 of
        Inl e \<Rightarrow> Inl e
      | Inr (state, presses) \<Rightarrow>
          scan_masks target buttons masks
            (if state = target then py_min min_presses (PyInt presses) else min_presses))"

text \<open>\<^verbatim>\<open>return min_presses if min_presses != float('inf') else 0\<close>\<close>

definition solve_gf2 :: "bool list \<Rightarrow> nat list list \<Rightarrow> py_error + py_num" where
  "solve_gf2 target buttons =
     (case scan_masks target buttons [0..<2 ^ length buttons] PyInf of
        Inl e \<Rightarrow> Inl e
      | Inr min_presses \<Rightarrow> Inr (if min_presses \<noteq> PyInf then min_presses else PyInt 0))"

subsection \<open>\<^verbatim>\<open>parse_line_part1\<close> (day10_chatgpt.py): one parity row per button\<close>

text \<open>\<^verbatim>\<open>for btn in buttons: row = [0]*n; ...; A.append(row)\<close>, with the rows built so far in \<open>A\<close>.\<close>

fun append_rows1 :: "nat \<Rightarrow> bool list list \<Rightarrow> nat list list \<Rightarrow> py_error + bool list list" where
  "append_rows1 n A [] = Inr A"
| "append_rows1 n A (btn # buttons) =
     (case toggle_all (replicate n False) btn of
        Inl e \<Rightarrow> Inl e
      | Inr row \<Rightarrow> append_rows1 n (A @ [row]) buttons)"

definition parse_line_part1 :: "bool list \<Rightarrow> nat list list \<Rightarrow> py_error + bool list \<times> bool list list" where
  "parse_line_part1 target buttons =
     (case append_rows1 (length target) [] buttons of
        Inl e \<Rightarrow> Inl e
      | Inr A \<Rightarrow> Inr (target, A))"

subsection \<open>\<^verbatim>\<open>gf2_solve_minweight\<close> (day10_chatgpt.py): elimination and null space\<close>

text \<open>
  \<^verbatim>\<open>M = np.concatenate([A.T, b.reshape(-1,1)], axis=1)\<close>: row \<open>i\<close> of \<open>M\<close> is column
  \<open>i\<close> of \<open>A\<close> followed by \<open>b[i]\<close>.
\<close>

definition augmented :: "bool list list \<Rightarrow> bool list \<Rightarrow> bool list list" where
  "augmented A b = map (\<lambda>i. map (\<lambda>row. row ! i) A @ [b ! i]) [0..<length b]"

text \<open>\<^verbatim>\<open>for i in range(r, rows): if M[i, c] == 1: pivot = i; break\<close>\<close>

fun find_pivot :: "bool list list \<Rightarrow> nat \<Rightarrow> nat list \<Rightarrow> nat option" where
  "find_pivot M c [] = None"
| "find_pivot M c (i # rest) = (if M ! i ! c then Some i else find_pivot M c rest)"

text \<open>\<^verbatim>\<open>M[i] ^= M[r]\<close> and \<^verbatim>\<open>x ^= v\<close>: the entrywise exclusive or of two arrays.\<close>

definition xor_row :: "bool list \<Rightarrow> bool list \<Rightarrow> bool list" where
  "xor_row a b = map2 (\<noteq>) a b"

text \<open>\<^verbatim>\<open>M[[pivot, r]] = M[[r, pivot]]\<close>: the right-hand side is copied before the assignment.\<close>

definition swap_rows :: "bool list list \<Rightarrow> nat \<Rightarrow> nat \<Rightarrow> bool list list" where
  "swap_rows M pivot r = M[pivot := M ! r, r := M ! pivot]"

text \<open>\<^verbatim>\<open>for i in range(rows): if i != r and M[i, c] == 1: M[i] ^= M[r]\<close>\<close>

fun clear_column :: "nat \<Rightarrow> nat \<Rightarrow> nat list \<Rightarrow> bool list list \<Rightarrow> bool list list" where
  "clear_column r c [] M = M"
| "clear_column r c (i # rest) M =
     clear_column r c rest (if i \<noteq> r \<and> M ! i ! c then M[i := xor_row (M ! i) (M ! r)] else M)"

text \<open>
  The elimination loop \<^verbatim>\<open>for c in range(m)\<close> over the columns still to visit, with the
  state \<open>M\<close>, \<open>pivot_cols\<close> and \<open>r\<close>. The sentinel \<^verbatim>\<open>-1\<close> of \<open>pivot_cols\<close> is
  \<open>None\<close>. A column without pivot is skipped (\<^verbatim>\<open>continue\<close>); the loop stops once every
  row holds a pivot (\<^verbatim>\<open>if r == rows: break\<close>).
\<close>

fun eliminate ::
  "nat list \<Rightarrow> bool list list \<Rightarrow> nat option list \<Rightarrow> nat \<Rightarrow> bool list list \<times> nat option list" where
  "eliminate [] M pivot_cols r = (M, pivot_cols)"
| "eliminate (c # cs) M pivot_cols r =
     (case find_pivot M c [r..<length M] of
        None \<Rightarrow> eliminate cs M pivot_cols r
      | Some pivot \<Rightarrow>
          (let M1 = (if pivot \<noteq> r then swap_rows M pivot r else M);
               pivot_cols1 = pivot_cols[r := Some c];
               M2 = clear_column r c [0..<length M1] M1
           in if r + 1 = length M then (M2, pivot_cols1)
              else eliminate cs M2 pivot_cols1 (r + 1)))"

text \<open>\<^verbatim>\<open>for i in range(rows): if pivot_cols[i] == -1 and M[i, -1] == 1: return float("inf")\<close>\<close>

definition inconsistent :: "bool list list \<Rightarrow> nat option list \<Rightarrow> bool" where
  "inconsistent M pivot_cols =
     list_ex (\<lambda>i. pivot_cols ! i = None \<and> last (M ! i)) [0..<length M]"

text \<open>\<^verbatim>\<open>free = [c for c in range(m) if c not in pivots]\<close>\<close>

definition free_columns :: "nat \<Rightarrow> nat option list \<Rightarrow> nat list" where
  "free_columns m pivot_cols = filter (\<lambda>c. Some c \<notin> set pivot_cols) [0..<m]"

text \<open>\<^verbatim>\<open>for i in range(rows): pc = pivot_cols[i]; if pc != -1: xp[pc] = M[i, -1]\<close>\<close>

fun particular :: "bool list list \<Rightarrow> nat option list \<Rightarrow> nat list \<Rightarrow> bool list \<Rightarrow> bool list" where
  "particular M pivot_cols [] xp = xp"
| "particular M pivot_cols (i # rest) xp =
     particular M pivot_cols rest
       (case pivot_cols ! i of None \<Rightarrow> xp | Some pc \<Rightarrow> xp[pc := last (M ! i)])"

text \<open>
  \<^verbatim>\<open>for i in range(rows): pc = pivot_cols[i]; if pc != -1 and M[i, fc] == 1: v[pc] ^= 1\<close>,
  started from \<^verbatim>\<open>v = np.zeros(m); v[fc] = 1\<close>.
\<close>

fun back_substitute ::
  "bool list list \<Rightarrow> nat option list \<Rightarrow> nat \<Rightarrow> nat list \<Rightarrow> bool list \<Rightarrow> bool list" where
  "back_substitute M pivot_cols fc [] v = v"
| "back_substitute M pivot_cols fc (i # rest) v =
     back_substitute M pivot_cols fc rest
       (case pivot_cols ! i of
          None \<Rightarrow> v
        | Some pc \<Rightarrow> if M ! i ! fc then v[pc := (v ! pc \<noteq> True)] else v)"

definition null_vector :: "bool list list \<Rightarrow> nat option list \<Rightarrow> nat \<Rightarrow> nat \<Rightarrow> bool list" where
  "null_vector M pivot_cols m fc =
     back_substitute M pivot_cols fc [0..<length M] ((replicate m False)[fc := True])"

text \<open>\<^verbatim>\<open>product([0,1], repeat=k)\<close>, in itertools' order (the last position varies fastest).\<close>

fun product01 :: "nat \<Rightarrow> bool list list" where
  "product01 0 = [[]]"
| "product01 (Suc k) = map ((#) False) (product01 k) @ map ((#) True) (product01 k)"

text \<open>\<^verbatim>\<open>for bit, v in zip(mask, nullvecs): if bit: x ^= v\<close>\<close>

fun combine :: "bool list \<Rightarrow> (bool \<times> bool list) list \<Rightarrow> bool list" where
  "combine x [] = x"
| "combine x ((b, v) # rest) = combine (if b then xor_row x v else x) rest"

text \<open>The search \<^verbatim>\<open>for mask in product(...)\<close> for the lightest combination.\<close>

fun lightest :: "bool list \<Rightarrow> bool list list \<Rightarrow> bool list list \<Rightarrow> py_num \<Rightarrow> py_num" where
  "lightest xp nullvecs [] best = best"
| "lightest xp nullvecs (msk # masks) best =
     (let x = combine xp (zip msk nullvecs);
          wt = PyInt (int (count_list x True))
      in lightest xp nullvecs masks (if py_less wt best then wt else best))"

text \<open>
  \<^verbatim>\<open>np.array(A)\<close> of an empty list has the one-dimensional shape \<open>(0,)\<close>, so
  \<^verbatim>\<open>m, n = A.shape\<close> raises ValueError; so do rows of different lengths, and
  \<^verbatim>\<open>np.concatenate\<close> when \<open>A\<close> has not one column per target bit.
\<close>

definition gf2_solve_minweight :: "bool list \<Rightarrow> bool list list \<Rightarrow> py_error + py_num" where
  "gf2_solve_minweight target A =
     (if A = [] \<or> (\<exists>row \<in> set A. length row \<noteq> length (hd A)) \<or> length (hd A) \<noteq> length target
      then Inl ValueError
      else
        (let m = length A;
             M0 = augmented A target;
             rows = length M0;
             (M, pivot_cols) = eliminate [0..<m] M0 (replicate rows None) 0
         in if inconsistent M pivot_cols then Inr PyInf
            else
              (let free = free_columns m pivot_cols;
                   xp = particular M pivot_cols [0..<rows] (replicate m False);
                   nullvecs = map (null_vector M pivot_cols m) free
               in Inr (lightest xp nullvecs (product01 (length free)) PyInf))))"

section \<open>What a solution is\<close>

text \<open>Every index a button lists is a position of the target.\<close>

definition indices_in_range :: "nat \<Rightarrow> nat list list \<Rightarrow> bool" where
  "indices_in_range n buttons = (\<forall>button \<in> set buttons. \<forall>i \<in> set button. i < n)"

text \<open>
  The toggle model. A press vector \<open>x\<close> says which buttons are pressed; light \<open>i\<close> is
  toggled once for every occurrence of \<open>i\<close> in a pressed button, and the vector reaches the
  target when the parity of these toggles is the target bit at every light. The Hamming
  weight is the number of pressed buttons.
\<close>

definition toggles_of :: "nat list list \<Rightarrow> bool list \<Rightarrow> nat \<Rightarrow> nat" where
  "toggles_of buttons x i =
     (\<Sum>j \<leftarrow> [0..<length buttons]. if x ! j then count_list (buttons ! j) i else 0)"

definition reaches_bits :: "bool list \<Rightarrow> nat list list \<Rightarrow> bool list \<Rightarrow> bool" where
  "reaches_bits target buttons x \<longleftrightarrow>
     length x = length buttons \<and> (\<forall>i < length target. odd (toggles_of buttons x i) = target ! i)"

definition hamming_weight :: "bool list \<Rightarrow> nat" where
  "hamming_weight x = count_list x True"

definition toggle_feasible :: "bool list \<Rightarrow> nat list list \<Rightarrow> bool" where
  "toggle_feasible target buttons \<longleftrightarrow> (\<exists>x. reaches_bits target buttons x)"

definition min_hamming_weight :: "bool list \<Rightarrow> nat list list \<Rightarrow> nat \<Rightarrow> bool" where
  "min_hamming_weight target buttons R \<longleftrightarrow>
     (\<exists>x. reaches_bits target buttons x \<and> hamming_weight x = R) \<and>
     (\<forall>y. reaches_bits target buttons y \<longrightarrow> R \<le> hamming_weight y)"

section \<open>The increment matrix\<close>

subsection \<open>\<^verbatim>\<open>solve_joltage\<close> (day10.py): \<^verbatim>\<open>A[i][j] = 1\<close>\<close>

text \<open>
  \<^verbatim>\<open>for i in button: A[i][j] = 1\<close> on the \<open>n_counters \<times> n_buttons\<close> array of zeros.
  An index outside the array raises IndexError.
\<close>

fun mark_button :: "int list list \<Rightarrow> nat \<Rightarrow> nat list \<Rightarrow> py_error + int list list" where
  "mark_button A j [] = Inr A"
| "mark_button A j (i # button) =
     (if i < length A then mark_button (A[i := (A ! i)[j := 1]]) j button
      else Inl IndexError)"

text \<open>\<^verbatim>\<open>for j, button in enumerate(buttons): ...\<close>\<close>

fun mark_buttons :: "int list list \<Rightarrow> nat \<Rightarrow> nat list list \<Rightarrow> py_error + int list list" where
  "mark_buttons A j [] = Inr A"
| "mark_buttons A j (button # buttons) =
     (case mark_button A j button of
        Inl e \<Rightarrow> Inl e
      | Inr A' \<Rightarrow> mark_buttons A' (j + 1) buttons)"

definition joltage_matrix :: "nat \<Rightarrow> nat list list \<Rightarrow> py_error + int list list" where
  "joltage_matrix n_counters buttons =
     mark_buttons (replicate n_counters (replicate (length buttons) 0)) 0 buttons"

subsection \<open>\<^verbatim>\<open>parse_line_part2\<close> (day10_chatgpt.py): \<^verbatim>\<open>row[idx] += 1\<close>\<close>

fun count_indices :: "int list \<Rightarrow> nat list \<Rightarrow> py_error + int list" where
  "count_indices row [] = Inr row"
| "count_indices row (idx # btn) =
     (if idx < length row then count_indices (row[idx := row ! idx + 1]) btn
      else Inl IndexError)"

text \<open>\<^verbatim>\<open>for btn in buttons: row = [0]*k; ...; A.append(row)\<close>, with the rows built so far in \<open>A\<close>.\<close>

fun append_rows2 :: "nat \<Rightarrow> int list list \<Rightarrow> nat list list \<Rightarrow> py_error + int list list" where
  "append_rows2 k A [] = Inr A"
| "append_rows2 k A (btn # buttons) =
     (case count_indices (replicate k 0) btn of
        Inl e \<Rightarrow> Inl e
      | Inr row \<Rightarrow> append_rows2 k (A @ [row]) buttons)"

definition parse_line_part2 :: "int list \<Rightarrow> nat list list \<Rightarrow> py_error + int list \<times> int list list" where
  "parse_line_part2 target buttons =
     (case append_rows2 (length target) [] buttons of
        Inl e \<Rightarrow> Inl e
      | Inr A \<Rightarrow> Inr (target, A))"

section \<open>The increment model\<close>

subsection \<open>The external solvers\<close>

text \<open>
  \<^verbatim>\<open>scipy.optimize.linprog\<close>, \<^verbatim>\<open>scipy.optimize.milp\<close> and the CBC solver behind
  \<^verbatim>\<open>pulp\<close> are libraries, not code of the scripts. A call is a parameter of the model: a
  function from the objective \<open>c\<close>, the equality matrix \<open>A\<close> and the right-hand side
  \<open>b\<close> to the answer, \<open>None\<close> when the solver reports no success and the vector
  \<^verbatim>\<open>result.x\<close> otherwise. The variables are bounded below by 0 in every call the scripts
  make. The floats of an answer are real numbers here.
\<close>

type_synonym solver = "real list \<Rightarrow> int list list \<Rightarrow> int list \<Rightarrow> real list option"

text \<open>
  What the scripts rely on. A point is feasible when it is non-negative and satisfies every
  equality; an answer of the linear solver is a feasible point of least objective, an
  answer of the integer solvers an integral one that is least among the integral ones; and
  a solver reports no success only when no such point exists (the objective of the scripts,
  a sum of non-negative variables, is bounded below).
\<close>

definition lp_feasible :: "int list list \<Rightarrow> int list \<Rightarrow> real list \<Rightarrow> bool" where
  "lp_feasible A b x \<longleftrightarrow>
     (\<forall>j < length x. 0 \<le> x ! j) \<and>
     (\<forall>i < length b. (\<Sum>j < length x. real_of_int (A ! i ! j) * x ! j) = real_of_int (b ! i))"

definition objective :: "real list \<Rightarrow> real list \<Rightarrow> real" where
  "objective c x = (\<Sum>j < length c. c ! j * x ! j)"

definition integral :: "real list \<Rightarrow> bool" where
  "integral x \<longleftrightarrow> (\<forall>j < length x. x ! j \<in> \<int>)"

definition linprog_contract :: "real list \<Rightarrow> int list list \<Rightarrow> int list \<Rightarrow> real list option \<Rightarrow> bool" where
  "linprog_contract c A b answer =
     (case answer of
        None \<Rightarrow> \<not> (\<exists>x. length x = length c \<and> lp_feasible A b x)
      | Some x \<Rightarrow> length x = length c \<and> lp_feasible A b x \<and>
          (\<forall>y. length y = length c \<and> lp_feasible A b y \<longrightarrow> objective c x \<le> objective c y))"

definition milp_contract :: "real list \<Rightarrow> int list list \<Rightarrow> int list \<Rightarrow> real list option \<Rightarrow> bool" where
  "milp_contract c A b answer =
     (case answer of
        None \<Rightarrow> \<not> (\<exists>x. length x = length c \<and> lp_feasible A b x \<and> integral x)
      | Some x \<Rightarrow> length x = length c \<and> lp_feasible A b x \<and> integral x \<and>
          (\<forall>y. length y = length c \<and> lp_feasible A b y \<and> integral y \<longrightarrow>
               objective c x \<le> objective c y))"

subsection \<open>Numeric helpers of numpy and Python\<close>

text \<open>\<^verbatim>\<open>np.round\<close> rounds to the nearest integer, a half to the even neighbour.\<close>

definition np_round :: "real \<Rightarrow> int" where
  "np_round v =
     (if v - of_int \<lfloor>v\<rfloor> < 1 / 2 then \<lfloor>v\<rfloor>
      else if 1 / 2 < v - of_int \<lfloor>v\<rfloor> then \<lfloor>v\<rfloor> + 1
      else if even \<lfloor>v\<rfloor> then \<lfloor>v\<rfloor> else \<lfloor>v\<rfloor> + 1)"

text \<open>\<^verbatim>\<open>int(v)\<close> of a float truncates towards zero.\<close>

definition py_int :: "real \<Rightarrow> int" where
  "py_int v = (if 0 \<le> v then \<lfloor>v\<rfloor> else \<lceil>v\<rceil>)"

text \<open>\<^verbatim>\<open>A @ x\<close> for an integer matrix and an integer vector.\<close>

definition mat_vec :: "int list list \<Rightarrow> int list \<Rightarrow> int list" where
  "mat_vec A x = map (\<lambda>row. \<Sum>(a, v) \<leftarrow> zip row x. a * v) A"

text \<open>\<^verbatim>\<open>np.all(A @ x == b_eq) and np.all(x >= 0)\<close>\<close>

definition accepts :: "int list list \<Rightarrow> int list \<Rightarrow> int list \<Rightarrow> bool" where
  "accepts A b_eq x \<longleftrightarrow> mat_vec A x = b_eq \<and> list_all (\<lambda>v. 0 \<le> v) x"

subsection \<open>\<^verbatim>\<open>solve_joltage\<close> (day10.py): relaxation, rounding, integer program\<close>

text \<open>
  The matrix is \<open>joltage_matrix\<close> above. \<^verbatim>\<open>linprog\<close> failing gives the float infinity.
  Its answer has one entry per button (otherwise \<^verbatim>\<open>A @ x\<close> raises ValueError); the
  three roundings are tried in the order of the source, and \<^verbatim>\<open>milp\<close> is called only
  when none is accepted.
\<close>

definition solve_joltage :: "solver \<Rightarrow> solver \<Rightarrow> int list \<Rightarrow> nat list list \<Rightarrow> py_error + py_num" where
  "solve_joltage linprog milp target buttons =
     (case joltage_matrix (length target) buttons of
        Inl e \<Rightarrow> Inl e
      | Inr A \<Rightarrow>
          (let c = replicate (length buttons) 1;
               b_eq = target
           in case linprog c A b_eq of
                None \<Rightarrow> Inr PyInf
              | Some x_lp \<Rightarrow>
                  if length x_lp \<noteq> length buttons then Inl ValueError
                  else
                    (let x_rounded = map np_round x_lp;
                         x_ceil = map ceiling x_lp;
                         x_floor = map floor x_lp
                     in if accepts A b_eq x_rounded then Inr (PyInt (sum_list x_rounded))
                        else if accepts A b_eq x_ceil then Inr (PyInt (sum_list x_ceil))
                        else if accepts A b_eq x_floor then Inr (PyInt (sum_list x_floor))
                        else
                          (case milp c A b_eq of
                             Some x \<Rightarrow> Inr (PyInt (py_int (sum_list x)))
                           | None \<Rightarrow> Inr PyInf))))"

text \<open>
  The same function with stage 2 left out, as the specification allows a from-scratch
  implementation to do: the relaxation decides feasibility, the integer program the value.
\<close>

definition solve_joltage_without_rounding ::
  "solver \<Rightarrow> solver \<Rightarrow> int list \<Rightarrow> nat list list \<Rightarrow> py_error + py_num" where
  "solve_joltage_without_rounding linprog milp target buttons =
     (case joltage_matrix (length target) buttons of
        Inl e \<Rightarrow> Inl e
      | Inr A \<Rightarrow>
          (let c = replicate (length buttons) 1;
               b_eq = target
           in case linprog c A b_eq of
                None \<Rightarrow> Inr PyInf
              | Some x_lp \<Rightarrow>
                  (case milp c A b_eq of
                     Some x \<Rightarrow> Inr (PyInt (py_int (sum_list x)))
                   | None \<Rightarrow> Inr PyInf)))"

subsection \<open>\<^verbatim>\<open>solve_machine_minpresses\<close> (day10_chatgpt.py): one integer program\<close>

text \<open>
  \<open>A\<close> has one row per button. \<^verbatim>\<open>len(A[0])\<close> raises IndexError on an empty \<open>A\<close>, and
  so do \<^verbatim>\<open>A[i][j]\<close> on a shorter row and \<^verbatim>\<open>target[j]\<close> on a shorter target. Constraint
  \<open>j\<close> is \<^verbatim>\<open>lpSum(x[i] * A[i][j] for i in range(m)) == target[j]\<close>, for \<open>j\<close> below
  \<^verbatim>\<open>k = len(A[0])\<close>: the rows and right-hand sides the solver is handed. A status other
  than Optimal raises ValueError, and the result is \<^verbatim>\<open>sum(int(v.value()) for v in x)\<close>.
\<close>

definition constraint_rows :: "int list list \<Rightarrow> int list list" where
  "constraint_rows A = map (\<lambda>j. map (\<lambda>i. A ! i ! j) [0..<length A]) [0..<length (hd A)]"

definition constraint_rhs :: "int list \<Rightarrow> int list list \<Rightarrow> int list" where
  "constraint_rhs target A = map (\<lambda>j. target ! j) [0..<length (hd A)]"

definition solve_machine_minpresses :: "solver \<Rightarrow> int list \<Rightarrow> int list list \<Rightarrow> py_error + int" where
  "solve_machine_minpresses cbc target A =
     (if A = [] then Inl IndexError
      else if (\<exists>row \<in> set A. length row < length (hd A)) \<or> length target < length (hd A)
      then Inl IndexError
      else
        (case cbc (replicate (length A) 1) (constraint_rows A) (constraint_rhs target A) of
           None \<Rightarrow> Inl ValueError
         | Some v \<Rightarrow> Inr (sum_list (map py_int v))))"

text \<open>The solver call of \<^verbatim>\<open>solve_machine_minpresses\<close> answers as the contract says.\<close>

definition cbc_sound :: "solver \<Rightarrow> int list \<Rightarrow> int list list \<Rightarrow> bool" where
  "cbc_sound cbc target A \<longleftrightarrow>
     milp_contract (replicate (length A) 1) (constraint_rows A) (constraint_rhs target A)
       (cbc (replicate (length A) 1) (constraint_rows A) (constraint_rhs target A))"

section \<open>The aggregators\<close>

text \<open>A parsed input line: the indicator lights, the buttons and the joltage requirements.\<close>

type_synonym machine_line = "bool list \<times> nat list list \<times> int list"

text \<open>
  \<^verbatim>\<open>solve_part1\<close> (day10.py): \<^verbatim>\<open>total += solve_gf2(target, buttons)\<close> over the
  lines, the running total in \<open>tot\<close>.
\<close>

fun solve_part1_from :: "py_num \<Rightarrow> machine_line list \<Rightarrow> py_error + py_num" where
  "solve_part1_from tot [] = Inr tot"
| "solve_part1_from tot ((target, buttons, joltage) # lines) =
     (case solve_gf2 target buttons of
        Inl e \<Rightarrow> Inl e
      | Inr min_presses \<Rightarrow> solve_part1_from (py_add tot min_presses) lines)"

definition solve_part1 :: "machine_line list \<Rightarrow> py_error + py_num" where
  "solve_part1 lines = solve_part1_from (PyInt 0) lines"

text \<open>\<^verbatim>\<open>solve_part2\<close> (day10.py): \<^verbatim>\<open>total += solve_joltage(target, buttons)\<close> over the lines.\<close>

fun solve_part2_from :: "solver \<Rightarrow> solver \<Rightarrow> py_num \<Rightarrow> machine_line list \<Rightarrow> py_error + py_num" where
  "solve_part2_from linprog milp tot [] = Inr tot"
| "solve_part2_from linprog milp tot ((lights, buttons, joltage) # lines) =
     (case solve_joltage linprog milp joltage buttons of
        Inl e \<Rightarrow> Inl e
      | Inr min_presses \<Rightarrow> solve_part2_from linprog milp (py_add tot min_presses) lines)"

definition solve_part2 :: "solver \<Rightarrow> solver \<Rightarrow> machine_line list \<Rightarrow> py_error + py_num" where
  "solve_part2 linprog milp lines = solve_part2_from linprog milp (PyInt 0) lines"

text \<open>
  \<^verbatim>\<open>compute_total_part1\<close> and \<^verbatim>\<open>compute_total_part2\<close> (day10_chatgpt.py), and the sum
  of the example test, over the lines already read:
  \<^verbatim>\<open>total += gf2_solve_minweight(*parse_line_part1(line))\<close> and
  \<^verbatim>\<open>total += solve_machine_minpresses(*parse_line_part2(line))\<close>.
\<close>

fun compute_total_part1_from :: "py_num \<Rightarrow> machine_line list \<Rightarrow> py_error + py_num" where
  "compute_total_part1_from tot [] = Inr tot"
| "compute_total_part1_from tot ((lights, buttons, joltage) # lines) =
     (case parse_line_part1 lights buttons of
        Inl e \<Rightarrow> Inl e
      | Inr (target, A) \<Rightarrow>
          (case gf2_solve_minweight target A of
             Inl e \<Rightarrow> Inl e
           | Inr v \<Rightarrow> compute_total_part1_from (py_add tot v) lines))"

definition compute_total_part1 :: "machine_line list \<Rightarrow> py_error + py_num" where
  "compute_total_part1 lines = compute_total_part1_from (PyInt 0) lines"

fun compute_total_part2_from :: "solver \<Rightarrow> int \<Rightarrow> machine_line list \<Rightarrow> py_error + int" where
  "compute_total_part2_from cbc tot [] = Inr tot"
| "compute_total_part2_from cbc tot ((lights, buttons, joltage) # lines) =
     (case parse_line_part2 joltage buttons of
        Inl e \<Rightarrow> Inl e
      | Inr (target, A) \<Rightarrow>
          (case solve_machine_minpresses cbc target A of
             Inl e \<Rightarrow> Inl e
           | Inr v \<Rightarrow> compute_total_part2_from cbc (tot + v) lines))"

definition compute_total_part2 :: "solver \<Rightarrow> machine_line list \<Rightarrow> py_error + int" where
  "compute_total_part2 cbc lines = compute_total_part2_from cbc 0 lines"

text \<open>The three example lines both scripts carry.\<close>

definition example :: "machine_line list" where
  "example =
     [([False, True, True, False],
       [[3], [1, 3], [2], [2, 3], [0, 2], [0, 1]],
       [3, 5, 4, 7]),
      ([False, False, False, True, False],
       [[0, 2, 3, 4], [2, 3], [0, 4], [0, 1, 2], [1, 2, 3, 4]],
       [7, 5, 12, 7, 2]),
      ([False, True, True, True, False, True],
       [[0, 1, 2, 3, 4], [0, 3, 4], [0, 1, 2, 4, 5], [1, 2]],
       [10, 11, 11, 5, 10, 5])]"

text \<open>
  The two solver calls of \<^verbatim>\<open>solve_joltage\<close> on a machine answer as the contracts say.
\<close>

definition solvers_sound :: "solver \<Rightarrow> solver \<Rightarrow> int list \<Rightarrow> nat list list \<Rightarrow> bool" where
  "solvers_sound linprog milp target buttons \<longleftrightarrow>
     (\<forall>A. joltage_matrix (length target) buttons = Inr A \<longrightarrow>
        linprog_contract (replicate (length buttons) 1) A target
          (linprog (replicate (length buttons) 1) A target) \<and>
        milp_contract (replicate (length buttons) 1) A target
          (milp (replicate (length buttons) 1) A target))"

section \<open>What a solution is, in the increment model\<close>

text \<open>
  A press vector \<open>x\<close> says how often each button is pressed; counter
  \<open>i\<close> grows by one for every occurrence of \<open>i\<close> in a button, at every press of it.
\<close>

definition increments_of :: "nat list list \<Rightarrow> nat list \<Rightarrow> nat \<Rightarrow> nat" where
  "increments_of buttons x i =
     (\<Sum>j \<leftarrow> [0..<length buttons]. x ! j * count_list (buttons ! j) i)"

definition reaches_counts :: "int list \<Rightarrow> nat list list \<Rightarrow> nat list \<Rightarrow> bool" where
  "reaches_counts target buttons x \<longleftrightarrow>
     length x = length buttons \<and>
     (\<forall>i < length target. int (increments_of buttons x i) = target ! i)"

definition counter_feasible :: "int list \<Rightarrow> nat list list \<Rightarrow> bool" where
  "counter_feasible target buttons \<longleftrightarrow> (\<exists>x. reaches_counts target buttons x)"

definition min_press_sum :: "int list \<Rightarrow> nat list list \<Rightarrow> nat \<Rightarrow> bool" where
  "min_press_sum target buttons R \<longleftrightarrow>
     (\<exists>x. reaches_counts target buttons x \<and> sum_list x = R) \<and>
     (\<forall>y. reaches_counts target buttons y \<longrightarrow> R \<le> sum_list y)"

section \<open>Notions used in the proofs\<close>

text \<open>The press vector a subset \<open>msk\<close> of \<open>m\<close> buttons stands for, and back.\<close>

definition selection :: "nat \<Rightarrow> nat \<Rightarrow> bool list" where
  "selection m msk = map (bit msk) [0..<m]"

fun mask_of :: "bool list \<Rightarrow> nat" where
  "mask_of [] = 0"
| "mask_of (b # bs) = of_bool b + 2 * mask_of bs"

text \<open>
  The product of a coefficient row with a vector over the two-element field, on the first
  \<open>k\<close> positions; a row of the augmented matrix holds at \<open>x\<close> when the product of its
  \<open>m\<close> coefficients with \<open>x\<close> is its last entry.
\<close>

primrec dotn :: "bool list \<Rightarrow> bool list \<Rightarrow> nat \<Rightarrow> bool" where
  "dotn a x 0 = False"
| "dotn a x (Suc k) = (dotn a x k \<noteq> (a ! k \<and> x ! k))"

definition row_holds :: "nat \<Rightarrow> bool list \<Rightarrow> bool list \<Rightarrow> bool" where
  "row_holds m row x \<longleftrightarrow> dotn row x m = row ! m"

definition solves :: "nat \<Rightarrow> bool list list \<Rightarrow> bool list \<Rightarrow> bool" where
  "solves m M x \<longleftrightarrow> length x = m \<and> (\<forall>i < length M. row_holds m (M ! i) x)"

text \<open>
  The invariant of the elimination loop before column \<open>c\<close>, with \<open>r\<close> pivots found: the
  first \<open>r\<close> rows hold a pivot in a column left of \<open>c\<close> that is zero in every other row,
  and the rows from \<open>r\<close> on are zero left of \<open>c\<close>.
\<close>

definition reduced :: "nat \<Rightarrow> nat \<Rightarrow> nat \<Rightarrow> bool list list \<Rightarrow> nat option list \<Rightarrow> bool" where
  "reduced m c r M pcs \<longleftrightarrow>
     length pcs = length M \<and> r \<le> length M \<and> (\<forall>i < length M. length (M ! i) = Suc m) \<and>
     (\<forall>i < r. \<exists>p < c. pcs ! i = Some p \<and> M ! i ! p \<and> (\<forall>k < length M. k \<noteq> i \<longrightarrow> \<not> M ! k ! p)) \<and>
     (\<forall>i < length M. r \<le> i \<longrightarrow> pcs ! i = None \<and> (\<forall>c' < c. \<not> M ! i ! c'))"

text \<open>What the loop leaves: every row has a pivot column of its own, or no coefficient at all.\<close>

definition rref :: "nat \<Rightarrow> bool list list \<Rightarrow> nat option list \<Rightarrow> bool" where
  "rref m M pcs \<longleftrightarrow>
     length pcs = length M \<and> (\<forall>i < length M. length (M ! i) = Suc m) \<and>
     (\<forall>i < length M. \<forall>p. pcs ! i = Some p \<longrightarrow>
         p < m \<and> M ! i ! p \<and> (\<forall>k < length M. k \<noteq> i \<longrightarrow> \<not> M ! k ! p)) \<and>
     (\<forall>i < length M. pcs ! i = None \<longrightarrow> (\<forall>c < m. \<not> M ! i ! c))"

text \<open>Position \<open>j\<close> of the exclusive or of the selected vectors of a list.\<close>

fun par :: "(bool \<times> bool list) list \<Rightarrow> nat \<Rightarrow> bool" where
  "par [] j = False"
| "par ((b, v) # zs) j = ((b \<and> v ! j) \<noteq> par zs j)"

text \<open>
  The integer program a solver is handed, with \<open>m\<close> variables and every cost 1: whether it
  has a solution, and its least total \<open>R\<close>.
\<close>

definition ilp_feasible :: "nat \<Rightarrow> int list list \<Rightarrow> int list \<Rightarrow> bool" where
  "ilp_feasible m A b \<longleftrightarrow> (\<exists>x. length x = m \<and> lp_feasible A b x \<and> integral x)"

definition ilp_minimum :: "nat \<Rightarrow> int list list \<Rightarrow> int list \<Rightarrow> int \<Rightarrow> bool" where
  "ilp_minimum m A b R \<longleftrightarrow>
     (\<exists>x. length x = m \<and> lp_feasible A b x \<and> integral x \<and> sum_list x = real_of_int R) \<and>
     (\<forall>y. length y = m \<and> lp_feasible A b y \<and> integral y \<longrightarrow> real_of_int R \<le> sum_list y)"

section \<open>Solver answers used in the examples\<close>

text \<open>
  A solver that answers \<open>[2]\<close> to the right-hand side \<open>[2]\<close> and reports no success
  otherwise; it keeps the contracts on the two one-button machines of the examples below.
\<close>

definition answer_two :: solver where
  "answer_two c A b = (if b = [2] then Some [2] else None)"


text \<open>
  A solver that answers the three example machines with a press vector of least sum
  (10, 12 and 11 presses) and reports no success otherwise.
\<close>

definition answer_example :: solver where
  "answer_example c A b =
     (if b = [3, 5, 4, 7] then Some [1, 3, 0, 3, 1, 2]
      else if b = [7, 5, 12, 7, 2] then Some [2, 5, 0, 5, 0]
      else if b = [10, 11, 11, 5, 10, 5] then Some [5, 0, 5, 1]
      else None)"

text \<open>A solver that answers \<open>[1]\<close> to the right-hand side \<open>[2]\<close>.\<close>

definition answer_one :: solver where
  "answer_one c A b = (if b = [2] then Some [1] else None)"

lemma toggle_all_result:
  "\<forall>l \<in> set button. l < length state \<Longrightarrow>
   \<exists>state'. toggle_all state button = Inr state' \<and> length state' = length state \<and>
      (\<forall>i < length state. state' ! i = (state ! i \<noteq> odd (count_list button i)))"
proof (induction button arbitrary: state)
  case Nil
  then show ?case by simp
next
  case (Cons l button)
  let ?s = "state[l := (state ! l \<noteq> True)]"
  from Cons.prems have l: "l < length state" and r: "\<forall>l \<in> set button. l < length ?s" by auto
  from Cons.IH [OF r] obtain state' where s: "toggle_all ?s button = Inr state'"
    and len: "length state' = length ?s"
    and nth: "\<forall>i < length ?s. state' ! i = (?s ! i \<noteq> odd (count_list button i))" by blast
  have "\<forall>i < length state. state' ! i = (state ! i \<noteq> odd (count_list (l # button) i))"
  proof (intro allI impI)
    fix i assume i: "i < length state"
    with nth have "state' ! i = (?s ! i \<noteq> odd (count_list button i))" by simp
    then show "state' ! i = (state ! i \<noteq> odd (count_list (l # button) i))"
      using i l by (cases "l = i") auto
  qed
  with s l len show ?case by simp
qed

lemma mask_test: "(msk AND push_bit j 1 \<noteq> 0) = bit (msk :: nat) j"
  by (simp add: bit_iff_and_push_bit_not_eq_0)

lemma press_selected_Cons:
  "press_selected msk buttons (j # js) state presses =
     (if bit msk j
      then (case toggle_all state (buttons ! j) of
              Inl e \<Rightarrow> Inl e
            | Inr state' \<Rightarrow> press_selected msk buttons js state' (presses + 1))
      else press_selected msk buttons js state presses)"
  by (simp only: press_selected.simps mask_test)

lemma press_selected_result:
  assumes "indices_in_range (length state) buttons" "\<forall>j \<in> set js. j < length buttons"
  shows "\<exists>state'. press_selected msk buttons js state presses
            = Inr (state', presses + int (length (filter (bit msk) js))) \<and>
          length state' = length state \<and>
          (\<forall>i < length state. state' ! i =
             (state ! i \<noteq> odd (\<Sum>j \<leftarrow> js. if bit msk j then count_list (buttons ! j) i else 0)))"
  using assms
proof (induction js arbitrary: state presses)
  case Nil
  then show ?case by simp
next
  case (Cons j js)
  show ?case
  proof (cases "bit msk j")
    case False
    with Cons.IH [OF Cons.prems(1), of presses] Cons.prems(2) show ?thesis
      by (simp add: press_selected_Cons del: press_selected.simps)
  next
    case True
    from Cons.prems have "\<forall>l \<in> set (buttons ! j). l < length state"
      by (auto simp: indices_in_range_def)
    from toggle_all_result [OF this] obtain s1 where s1: "toggle_all state (buttons ! j) = Inr s1"
      and l1: "length s1 = length state"
      and n1: "\<forall>i < length state. s1 ! i = (state ! i \<noteq> odd (count_list (buttons ! j) i))"
      by blast
    from Cons.prems(1) l1 have w1: "indices_in_range (length s1) buttons" by simp
    from Cons.prems(2) have js: "\<forall>j \<in> set js. j < length buttons" by simp
    from Cons.IH [OF w1 js, of "presses + 1"] obtain s2 where
      s2: "press_selected msk buttons js s1 (presses + 1)
            = Inr (s2, presses + 1 + int (length (filter (bit msk) js)))"
      and l2: "length s2 = length s1"
      and n2: "\<forall>i < length s1. s2 ! i =
             (s1 ! i \<noteq> odd (\<Sum>j \<leftarrow> js. if bit msk j then count_list (buttons ! j) i else 0))"
      by blast
    have "press_selected msk buttons (j # js) state presses
            = Inr (s2, presses + int (length (filter (bit msk) (j # js))))"
      using True s1 s2 by (simp add: press_selected_Cons del: press_selected.simps)
    moreover have "\<forall>i < length state. s2 ! i =
             (state ! i \<noteq> odd (\<Sum>j \<leftarrow> j # js. if bit msk j then count_list (buttons ! j) i else 0))"
      using n1 n2 l1 True by auto
    ultimately show ?thesis using l1 l2 by simp
  qed
qed

lemma count_list_map_True: "count_list (map f xs) True = length (filter f xs)"
  by (induction xs) auto

lemma selection_nth: "j < m \<Longrightarrow> selection m msk ! j = bit msk j"
  by (simp add: selection_def)

lemma selection_length: "length (selection m msk) = m"
  by (simp add: selection_def)

lemma toggles_of_selection:
  "toggles_of buttons (selection (length buttons) msk) i =
     (\<Sum>j \<leftarrow> [0..<length buttons]. if bit msk j then count_list (buttons ! j) i else 0)"
  unfolding toggles_of_def
  by (rule arg_cong [where f = sum_list], rule map_cong) (simp_all add: selection_nth)

lemma hamming_weight_selection:
  "hamming_weight (selection m msk) = length (filter (bit msk) [0..<m])"
  by (simp add: hamming_weight_def selection_def count_list_map_True)

lemma try_mask:
  assumes "indices_in_range (length target) buttons"
  shows "\<exists>state. press_selected msk buttons [0..<length buttons] (replicate (length target) False) 0
           = Inr (state, int (hamming_weight (selection (length buttons) msk))) \<and>
         (state = target \<longleftrightarrow> reaches_bits target buttons (selection (length buttons) msk))"
proof -
  let ?z = "replicate (length target) False"
  have w: "indices_in_range (length ?z) buttons" using assms by simp
  have js: "\<forall>j \<in> set [0..<length buttons]. j < length buttons" by simp
  from press_selected_result [OF w js, of msk 0] obtain state where
    s: "press_selected msk buttons [0..<length buttons] ?z 0
          = Inr (state, 0 + int (length (filter (bit msk) [0..<length buttons])))"
    and l: "length state = length ?z"
    and n: "\<forall>i < length ?z. state ! i =
             (?z ! i \<noteq> odd (\<Sum>j \<leftarrow> [0..<length buttons]. if bit msk j then count_list (buttons ! j) i else 0))"
    by blast
  have n': "\<forall>i < length target. state ! i = odd (toggles_of buttons (selection (length buttons) msk) i)"
    using n by (simp add: toggles_of_selection)
  have "state = target \<longleftrightarrow> (\<forall>i < length target. state ! i = target ! i)"
    using l by (auto simp: list_eq_iff_nth_eq)
  also have "\<dots> \<longleftrightarrow> reaches_bits target buttons (selection (length buttons) msk)"
    using n' by (simp add: reaches_bits_def selection_length)
  finally show ?thesis using s by (simp add: hamming_weight_selection)
qed

lemma mask_of_bit: "bit (mask_of x) j = (j < length x \<and> x ! j)"
proof (induction x arbitrary: j)
  case Nil
  then show ?case by simp
next
  case (Cons b bs)
  show ?case
  proof (cases j)
    case 0
    then show ?thesis by (simp add: bit_0)
  next
    case (Suc k)
    have "bit (of_bool b + 2 * mask_of bs) (Suc k) = bit (mask_of bs) k"
      by (cases b) (simp_all add: bit_Suc)
    with Suc Cons.IH [of k] show ?thesis by simp
  qed
qed

lemma mask_of_less: "mask_of x < 2 ^ length x"
proof (induction x)
  case Nil
  then show ?case by simp
next
  case (Cons b bs)
  have "of_bool b + 2 * mask_of bs < 2 * 2 ^ length bs"
    using Cons.IH by (cases b) simp_all
  then show ?case by simp
qed

lemma selection_mask_of: "selection (length x) (mask_of x) = x"
  by (rule nth_equalityI) (simp_all add: selection_def mask_of_bit)

lemma scan_masks_result:
  assumes wf: "indices_in_range (length target) buttons"
  shows "\<exists>best'. scan_masks target buttons masks best = Inr best' \<and>
           (best' = best \<or>
            (\<exists>msk \<in> set masks. reaches_bits target buttons (selection (length buttons) msk) \<and>
               best' = PyInt (int (hamming_weight (selection (length buttons) msk))))) \<and>
           \<not> py_less best best' \<and>
           (\<forall>msk \<in> set masks. reaches_bits target buttons (selection (length buttons) msk) \<longrightarrow>
               \<not> py_less (PyInt (int (hamming_weight (selection (length buttons) msk)))) best')"
proof (induction masks arbitrary: best)
  case Nil
  show ?case by (cases best) simp_all
next
  case (Cons msk masks)
  let ?x = "selection (length buttons) msk"
  let ?w = "PyInt (int (hamming_weight ?x))"
  from try_mask [OF wf, of msk] obtain state where
    st: "press_selected msk buttons [0..<length buttons] (replicate (length target) False) 0
           = Inr (state, int (hamming_weight ?x))"
    and eq: "state = target \<longleftrightarrow> reaches_bits target buttons ?x" by blast
  let ?b = "if state = target then py_min best ?w else best"
  from Cons.IH [of ?b] obtain best' where
    r: "scan_masks target buttons masks ?b = Inr best'"
    and a: "best' = ?b \<or>
            (\<exists>msk \<in> set masks. reaches_bits target buttons (selection (length buttons) msk) \<and>
               best' = PyInt (int (hamming_weight (selection (length buttons) msk))))"
    and b: "\<not> py_less ?b best'"
    and c: "\<forall>msk \<in> set masks. reaches_bits target buttons (selection (length buttons) msk) \<longrightarrow>
               \<not> py_less (PyInt (int (hamming_weight (selection (length buttons) msk)))) best'"
    by blast
  have 1: "scan_masks target buttons (msk # masks) best = Inr best'"
    using st r by simp
  have 2: "best' = best \<or>
            (\<exists>m \<in> set (msk # masks). reaches_bits target buttons (selection (length buttons) m) \<and>
               best' = PyInt (int (hamming_weight (selection (length buttons) m))))"
    using a eq by (auto simp: py_min_def split: if_splits)
  have 3: "\<not> py_less best best'"
    using b by (cases best; cases best') (auto simp: py_min_def split: if_splits)
  have 4: "reaches_bits target buttons ?x \<longrightarrow> \<not> py_less ?w best'"
    using b eq by (cases best; cases best') (auto simp: py_min_def split: if_splits)
  from 1 2 3 4 c show ?case by auto
qed

lemma solve_gf2_feasible:
  assumes wf: "indices_in_range (length target) buttons"
    and feas: "toggle_feasible target buttons"
  shows "\<exists>R. solve_gf2 target buttons = Inr (PyInt (int R)) \<and> min_hamming_weight target buttons R"
proof -
  let ?m = "length buttons"
  from scan_masks_result [OF wf, of "[0..<2 ^ ?m]" PyInf] obtain best' where
    r: "scan_masks target buttons [0..<2 ^ ?m] PyInf = Inr best'"
    and a: "best' = PyInf \<or>
            (\<exists>msk \<in> set [0..<2 ^ ?m]. reaches_bits target buttons (selection ?m msk) \<and>
               best' = PyInt (int (hamming_weight (selection ?m msk))))"
    and c: "\<forall>msk \<in> set [0..<2 ^ ?m]. reaches_bits target buttons (selection ?m msk) \<longrightarrow>
               \<not> py_less (PyInt (int (hamming_weight (selection ?m msk)))) best'"
    by blast
  have all: "\<not> py_less (PyInt (int (hamming_weight y))) best'" if y: "reaches_bits target buttons y" for y
  proof -
    from y have ly: "length y = ?m" by (simp add: reaches_bits_def)
    have "mask_of y \<in> set [0..<2 ^ ?m]" using mask_of_less [of y] ly by simp
    moreover have "selection ?m (mask_of y) = y" using selection_mask_of [of y] ly by simp
    ultimately show ?thesis using c y by force
  qed
  from feas obtain x0 where x0: "reaches_bits target buttons x0" by (auto simp: toggle_feasible_def)
  from all [OF x0] have "best' \<noteq> PyInf" by auto
  with a obtain msk where m: "reaches_bits target buttons (selection ?m msk)"
    and b: "best' = PyInt (int (hamming_weight (selection ?m msk)))" by blast
  let ?R = "hamming_weight (selection ?m msk)"
  have "solve_gf2 target buttons = Inr (PyInt (int ?R))"
    using r b by (simp add: solve_gf2_def)
  moreover have "min_hamming_weight target buttons ?R"
    unfolding min_hamming_weight_def using m all b by (auto simp: not_less)
  ultimately show ?thesis by blast
qed

lemma solve_gf2_infeasible:
  assumes wf: "indices_in_range (length target) buttons"
    and infeas: "\<not> toggle_feasible target buttons"
  shows "solve_gf2 target buttons = Inr (PyInt 0)"
proof -
  let ?m = "length buttons"
  from scan_masks_result [OF wf, of "[0..<2 ^ ?m]" PyInf] obtain best' where
    r: "scan_masks target buttons [0..<2 ^ ?m] PyInf = Inr best'"
    and a: "best' = PyInf \<or>
            (\<exists>msk \<in> set [0..<2 ^ ?m]. reaches_bits target buttons (selection ?m msk) \<and>
               best' = PyInt (int (hamming_weight (selection ?m msk))))"
    by blast
  from infeas a have "best' = PyInf" by (auto simp: toggle_feasible_def)
  with r show ?thesis by (simp add: solve_gf2_def)
qed

lemma min_hamming_weight_unique:
  "min_hamming_weight target buttons R \<Longrightarrow> min_hamming_weight target buttons R' \<Longrightarrow> R = R'"
  unfolding min_hamming_weight_def by (meson le_antisym)

lemma xor_row_length: "length (xor_row a b) = min (length a) (length b)"
  by (simp add: xor_row_def)

lemma xor_row_nth: "j < length a \<Longrightarrow> j < length b \<Longrightarrow> xor_row a b ! j = (a ! j \<noteq> b ! j)"
  by (simp add: xor_row_def)

lemma dotn_xor_left:
  "k \<le> length a \<Longrightarrow> k \<le> length b \<Longrightarrow> dotn (xor_row a b) x k = (dotn a x k \<noteq> dotn b x k)"
  by (induction k) (auto simp: xor_row_nth)

lemma dotn_xor_right:
  "k \<le> length x \<Longrightarrow> k \<le> length y \<Longrightarrow> dotn a (xor_row x y) k = (dotn a x k \<noteq> dotn a y k)"
  by (induction k) (auto simp: xor_row_nth)

lemma dotn_zero: "\<forall>c < k. \<not> (a ! c \<and> x ! c) \<Longrightarrow> \<not> dotn a x k"
  by (induction k) auto

lemma dotn_single:
  "\<forall>c < k. c \<noteq> p \<longrightarrow> \<not> (a ! c \<and> x ! c) \<Longrightarrow> dotn a x k = (p < k \<and> a ! p \<and> x ! p)"
proof (induction k)
  case 0
  then show ?case by simp
next
  case (Suc k)
  then have "dotn a x k = (p < k \<and> a ! p \<and> x ! p)" by simp
  with Suc.prems show ?case by (cases "p = k") (auto simp: less_Suc_eq)
qed

lemma dotn_two:
  assumes "p \<noteq> q" "\<forall>c < k. c \<noteq> p \<and> c \<noteq> q \<longrightarrow> \<not> (a ! c \<and> x ! c)"
  shows "dotn a x k = ((p < k \<and> a ! p \<and> x ! p) \<noteq> (q < k \<and> a ! q \<and> x ! q))"
  using assms(2)
proof (induction k)
  case 0
  then show ?case by simp
next
  case (Suc k)
  then have IH: "dotn a x k = ((p < k \<and> a ! p \<and> x ! p) \<noteq> (q < k \<and> a ! q \<and> x ! q))" by simp
  consider "k = p" | "k = q" | "k \<noteq> p" "k \<noteq> q" by blast
  then show ?case
  proof cases
    case 1
    with IH assms(1) show ?thesis by (auto simp: less_Suc_eq)
  next
    case 2
    with IH assms(1) show ?thesis by (auto simp: less_Suc_eq)
  next
    case 3
    with Suc.prems have "\<not> (a ! k \<and> x ! k)" by simp
    with IH 3 show ?thesis by (auto simp: less_Suc_eq)
  qed
qed

lemma row_holds_xor:
  assumes "length a = Suc m" "length b = Suc m" "row_holds m b x"
  shows "row_holds m (xor_row a b) x = row_holds m a x"
  using assms by (auto simp: row_holds_def dotn_xor_left xor_row_nth)

lemma find_pivot_None: "find_pivot M c is = None \<Longrightarrow> \<forall>i \<in> set is. \<not> M ! i ! c"
  by (induction "is") (auto split: if_splits)

lemma find_pivot_Some: "find_pivot M c is = Some p \<Longrightarrow> p \<in> set is \<and> M ! p ! c"
  by (induction "is") (auto split: if_splits)

lemma clear_column_length: "length (clear_column r c is M) = length M"
  by (induction "is" arbitrary: M) auto

lemma clear_column_nth:
  assumes "distinct is" "r < length M" "\<forall>i \<in> set is. i < length M" "i < length M"
  shows "clear_column r c is M ! i =
           (if i \<in> set is \<and> i \<noteq> r \<and> M ! i ! c then xor_row (M ! i) (M ! r) else M ! i)"
  using assms
proof (induction "is" arbitrary: M)
  case Nil
  then show ?case by simp
next
  case (Cons j js)
  let ?M = "if j \<noteq> r \<and> M ! j ! c then M[j := xor_row (M ! j) (M ! r)] else M"
  have len: "length ?M = length M" by simp
  have r: "?M ! r = M ! r" by simp
  have other: "k \<noteq> j \<Longrightarrow> ?M ! k = M ! k" for k by simp
  have "clear_column r c (j # js) M ! i = clear_column r c js ?M ! i" by simp
  also have "\<dots> = (if i \<in> set js \<and> i \<noteq> r \<and> ?M ! i ! c then xor_row (?M ! i) (?M ! r) else ?M ! i)"
    using Cons.prems by (intro Cons.IH) (simp_all del: clear_column.simps)
  also have "\<dots> = (if i \<in> set (j # js) \<and> i \<noteq> r \<and> M ! i ! c then xor_row (M ! i) (M ! r) else M ! i)"
  proof (cases "i = j")
    case True
    with Cons.prems have "i \<notin> set js" by simp
    with True Cons.prems show ?thesis by simp
  next
    case False
    with other [of i] r show ?thesis by simp
  qed
  finally show ?case .
qed

lemma swap_rows_length: "length (swap_rows M p r) = length M"
  by (simp add: swap_rows_def)

lemma swap_rows_nth:
  "p < length M \<Longrightarrow> r < length M \<Longrightarrow> i < length M \<Longrightarrow>
   swap_rows M p r ! i = (if i = r then M ! p else if i = p then M ! r else M ! i)"
  by (simp add: swap_rows_def nth_list_update)

lemma pivot_step:
  assumes red: "reduced m c r M pcs" and c: "c < m"
    and p: "r \<le> p" "p < length M" "M ! p ! c"
  defines "M1 \<equiv> (if p \<noteq> r then swap_rows M p r else M)"
  defines "M2 \<equiv> clear_column r c [0..<length M1] M1"
  shows "reduced m (Suc c) (Suc r) M2 (pcs[r := Some c])"
    and "length M2 = length M"
    and "length x = m \<Longrightarrow> (\<forall>i < length M2. row_holds m (M2 ! i) x) = (\<forall>i < length M. row_holds m (M ! i) x)"
proof -
  let ?n = "length M"
  from red have lp: "length pcs = ?n" and rn: "r \<le> ?n"
    and rowlen: "\<forall>i < ?n. length (M ! i) = Suc m"
    and piv: "\<forall>i < r. \<exists>q < c. pcs ! i = Some q \<and> M ! i ! q \<and> (\<forall>k < ?n. k \<noteq> i \<longrightarrow> \<not> M ! k ! q)"
    and low: "\<forall>i < ?n. r \<le> i \<longrightarrow> pcs ! i = None \<and> (\<forall>c' < c. \<not> M ! i ! c')"
    by (auto simp: reduced_def)
  from p have r: "r < ?n" by simp
  have l1: "length M1 = ?n" by (simp add: M1_def swap_rows_length)
  have n1: "M1 ! i = (if i = r then M ! p else if i = p then M ! r else M ! i)" if "i < ?n" for i
    using that p r by (auto simp: M1_def swap_rows_nth)
  show l2: "length M2 = ?n" by (simp add: M2_def clear_column_length l1)
  have n2: "M2 ! i = (if i \<noteq> r \<and> M1 ! i ! c then xor_row (M1 ! i) (M1 ! r) else M1 ! i)" if "i < ?n" for i
    unfolding M2_def using that r l1 by (subst clear_column_nth) simp_all
  have rowlen1: "length (M1 ! i) = Suc m" if "i < ?n" for i
    using that n1 rowlen p r by simp
  have rowlen2: "length (M2 ! i) = Suc m" if "i < ?n" for i
    using that n2 rowlen1 r by (simp add: xor_row_length)
  have M1r: "M1 ! r = M ! p" using n1 r by simp
  have M1rc: "M1 ! r ! c" using M1r p by simp
  have col2: "M2 ! i ! j = (if i \<noteq> r \<and> M1 ! i ! c then (M1 ! i ! j \<noteq> M1 ! r ! j) else M1 ! i ! j)"
    if "i < ?n" "j \<le> m" for i j
    using that n2 rowlen1 r by (simp add: xor_row_nth)
  \<comment> \<open>the row that became row r has no entry left of column c\<close>
  have pz: "\<not> M ! p ! c'" if "c' < c" for c' using low p that by simp
  \<comment> \<open>old pivot columns\<close>
  have old: "\<exists>q < Suc c. (pcs[r := Some c]) ! i = Some q \<and> M2 ! i ! q \<and> (\<forall>k < length M2. k \<noteq> i \<longrightarrow> \<not> M2 ! k ! q)"
    if i: "i < r" for i
  proof -
    from piv i obtain q where q: "q < c" "pcs ! i = Some q" "M ! i ! q"
      and qz: "\<forall>k < ?n. k \<noteq> i \<longrightarrow> \<not> M ! k ! q" by blast
    have in': "i < ?n" using i r by simp
    have qm: "q \<le> m" using q c by simp
    have ip: "i \<noteq> p" "i \<noteq> r" using i p by auto
    have M1q: "M1 ! k ! q = (k = i)" if "k < ?n" for k
    proof (cases "k = i")
      case True
      then show ?thesis using n1 [OF in'] ip q by simp
    next
      case False
      then show ?thesis using n1 [OF that] qz that p r ip by auto
    qed
    have M2q: "M2 ! k ! q = (k = i)" if "k < ?n" for k
      using col2 [OF that qm] M1q [OF that] M1q [OF r] ip by auto
    have "(pcs[r := Some c]) ! i = Some q" using q ip by simp
    with q M2q in' l2 show ?thesis by (intro exI [of _ q]) auto
  qed
  have new: "\<exists>q < Suc c. (pcs[r := Some c]) ! r = Some q \<and> M2 ! r ! q \<and> (\<forall>k < length M2. k \<noteq> r \<longrightarrow> \<not> M2 ! k ! q)"
  proof -
    have cm: "c \<le> m" using c by simp
    have "(pcs[r := Some c]) ! r = Some c" using lp r by simp
    moreover have "M2 ! r ! c" using col2 [OF r cm] M1rc by simp
    moreover have "\<forall>k < length M2. k \<noteq> r \<longrightarrow> \<not> M2 ! k ! c"
      using col2 [OF _ cm] M1rc l2 by auto
    ultimately show ?thesis by (intro exI [of _ c]) simp
  qed
  have below: "(pcs[r := Some c]) ! i = None \<and> (\<forall>c' < Suc c. \<not> M2 ! i ! c')"
    if i: "i < length M2" "Suc r \<le> i" for i
  proof -
    have in': "i < ?n" using i l2 by simp
    have "pcs ! i = None" using low in' i by simp
    then have a: "(pcs[r := Some c]) ! i = None" using i by simp
    have b: "\<not> M2 ! i ! c'" if c': "c' < Suc c" for c'
    proof (cases "c' = c")
      case True
      have cm: "c \<le> m" using c by simp
      show ?thesis using col2 [OF in' cm] M1rc i True by auto
    next
      case False
      with c' have lt: "c' < c" by simp
      then have cm: "c' \<le> m" using c by simp
      have z1: "\<not> M1 ! k ! c'" if "k < ?n" "r \<le> k" for k
        using n1 [OF that(1)] low that lt p r by auto
      show ?thesis using col2 [OF in' cm] z1 [OF in'] z1 [OF r] i by auto
    qed
    from a b show ?thesis by blast
  qed
  show "reduced m (Suc c) (Suc r) M2 (pcs[r := Some c])"
    unfolding reduced_def
  proof (intro conjI allI impI)
    show "length (pcs[r := Some c]) = length M2" using lp l2 by simp
    show "Suc r \<le> length M2" using r l2 by simp
    show "length (M2 ! i) = Suc m" if "i < length M2" for i using that rowlen2 l2 by simp
    show "\<exists>q < Suc c. (pcs[r := Some c]) ! i = Some q \<and> M2 ! i ! q \<and> (\<forall>k < length M2. k \<noteq> i \<longrightarrow> \<not> M2 ! k ! q)"
      if "i < Suc r" for i
      using that old new by (cases "i = r") auto
    show "(pcs[r := Some c]) ! i = None" if "i < length M2" "Suc r \<le> i" for i
      using below that by blast
    show "\<not> M2 ! i ! c'" if "i < length M2" "Suc r \<le> i" "c' < Suc c" for i c'
      using below that by blast
  qed
  show "(\<forall>i < length M2. row_holds m (M2 ! i) x) = (\<forall>i < length M. row_holds m (M ! i) x)"
    if "length x = m"
  proof -
    have s1: "(\<forall>i < ?n. row_holds m (M1 ! i) x) = (\<forall>i < ?n. row_holds m (M ! i) x)"
    proof
      assume h: "\<forall>i < ?n. row_holds m (M1 ! i) x"
      show "\<forall>i < ?n. row_holds m (M ! i) x"
      proof (intro allI impI)
        fix i assume i: "i < ?n"
        consider "i = r" | "i = p" "i \<noteq> r" | "i \<noteq> r" "i \<noteq> p" by blast
        then show "row_holds m (M ! i) x"
        proof cases
          case 1
          then show ?thesis using h n1 [of p] p r by (auto split: if_splits)
        next
          case 2
          then show ?thesis using h n1 [of r] r by auto
        next
          case 3
          then show ?thesis using h n1 [of i] i by auto
        qed
      qed
    next
      assume h: "\<forall>i < ?n. row_holds m (M ! i) x"
      show "\<forall>i < ?n. row_holds m (M1 ! i) x"
        using h n1 p r by auto
    qed
    have rr: "row_holds m (M2 ! r) x = row_holds m (M1 ! r) x" using n2 [OF r] by simp
    have s2: "(\<forall>i < ?n. row_holds m (M2 ! i) x) = (\<forall>i < ?n. row_holds m (M1 ! i) x)"
    proof
      assume h: "\<forall>i < ?n. row_holds m (M2 ! i) x"
      then have hr: "row_holds m (M1 ! r) x" using rr r by simp
      show "\<forall>i < ?n. row_holds m (M1 ! i) x"
      proof (intro allI impI)
        fix i assume i: "i < ?n"
        from h i have "row_holds m (M2 ! i) x" by simp
        then show "row_holds m (M1 ! i) x"
          using n2 [OF i] row_holds_xor [OF rowlen1 [OF i] rowlen1 [OF r] hr]
          by (auto split: if_splits)
      qed
    next
      assume h: "\<forall>i < ?n. row_holds m (M1 ! i) x"
      then have hr: "row_holds m (M1 ! r) x" using r by simp
      show "\<forall>i < ?n. row_holds m (M2 ! i) x"
      proof (intro allI impI)
        fix i assume i: "i < ?n"
        from h i have "row_holds m (M1 ! i) x" by simp
        then show "row_holds m (M2 ! i) x"
          using n2 [OF i] row_holds_xor [OF rowlen1 [OF i] rowlen1 [OF r] hr]
          by (auto split: if_splits)
      qed
    qed
    show ?thesis using s1 s2 l2 by simp
  qed
qed

lemma reduced_rref:
  assumes "reduced m c r M pcs" "c \<le> m" "c = m \<or> r = length M"
  shows "rref m M pcs"
proof -
  let ?n = "length M"
  from assms(1) have lp: "length pcs = ?n" and rn: "r \<le> ?n"
    and rowlen: "\<forall>i < ?n. length (M ! i) = Suc m"
    and piv: "\<forall>i < r. \<exists>q < c. pcs ! i = Some q \<and> M ! i ! q \<and> (\<forall>k < ?n. k \<noteq> i \<longrightarrow> \<not> M ! k ! q)"
    and low: "\<forall>i < ?n. r \<le> i \<longrightarrow> pcs ! i = None \<and> (\<forall>c' < c. \<not> M ! i ! c')"
    by (auto simp: reduced_def)
  have a: "p < m \<and> M ! i ! p \<and> (\<forall>k < ?n. k \<noteq> i \<longrightarrow> \<not> M ! k ! p)"
    if "i < ?n" "pcs ! i = Some p" for i p
  proof -
    have "i < r" using low that by (cases "i < r") auto
    with piv obtain q where "q < c" "pcs ! i = Some q" "M ! i ! q" "\<forall>k < ?n. k \<noteq> i \<longrightarrow> \<not> M ! k ! q"
      by blast
    with that assms(2) show ?thesis by auto
  qed
  have b: "\<not> M ! i ! c'" if "i < ?n" "pcs ! i = None" "c' < m" for i c'
  proof -
    have "r \<le> i" using piv that by (cases "i < r") auto
    with that rn assms(3) have "c = m" by auto
    with low that \<open>r \<le> i\<close> show ?thesis by auto
  qed
  show ?thesis unfolding rref_def using lp rowlen a b by blast
qed

lemma no_pivot_step:
  assumes "reduced m c r M pcs" "\<forall>i \<in> set [r..<length M]. \<not> M ! i ! c"
  shows "reduced m (Suc c) r M pcs"
  using assms unfolding reduced_def
  by (auto simp: less_Suc_eq)

lemma eliminate_rref:
  assumes "reduced m c r M pcs" "c \<le> m" "eliminate [c..<m] M pcs r = (M', pcs')"
  shows "rref m M' pcs' \<and> length M' = length M \<and>
         (\<forall>x. length x = m \<longrightarrow>
            (\<forall>i < length M'. row_holds m (M' ! i) x) = (\<forall>i < length M. row_holds m (M ! i) x))"
  using assms
proof (induction "m - c" arbitrary: c r M pcs)
  case 0
  then have "c = m" by simp
  with "0.prems" have "M' = M" "pcs' = pcs" by simp_all
  with reduced_rref [OF "0.prems"(1,2)] \<open>c = m\<close> show ?case by simp
next
  case (Suc d)
  then have c: "c < m" and d: "d = m - Suc c" and cs: "[c..<m] = c # [Suc c..<m]"
    by (auto simp: upt_conv_Cons)
  from c have sc: "Suc c \<le> m" by simp
  show ?case
  proof (cases "find_pivot M c [r..<length M]")
    case None
    from find_pivot_None [OF None] Suc.prems(1)
    have red': "reduced m (Suc c) r M pcs" by (intro no_pivot_step) auto
    have "eliminate [Suc c..<m] M pcs r = (M', pcs')"
      using Suc.prems(3) None cs by simp
    from Suc.hyps(1) [OF d red' sc this] show ?thesis .
  next
    case (Some p)
    from find_pivot_Some [OF Some] have p: "r \<le> p" "p < length M" "M ! p ! c" by auto
    define M1 where "M1 = (if p \<noteq> r then swap_rows M p r else M)"
    define M2 where "M2 = clear_column r c [0..<length M1] M1"
    note step = pivot_step [OF Suc.prems(1) c p, folded M1_def M2_def]
    have sol: "(\<forall>i < length M2. row_holds m (M2 ! i) x) = (\<forall>i < length M. row_holds m (M ! i) x)"
      if "length x = m" for x using step(3) [OF that] .
    show ?thesis
    proof (cases "r + 1 = length M")
      case True
      with Suc.prems(3) Some cs have "M' = M2" "pcs' = pcs[r := Some c]"
        by (simp_all add: Let_def M1_def M2_def)
      moreover have "rref m M2 (pcs[r := Some c])"
        using reduced_rref [OF step(1)] c True step(2) by simp
      ultimately show ?thesis using step(2) sol by simp
    next
      case False
      with Suc.prems(3) Some cs
      have e: "eliminate [Suc c..<m] M2 (pcs[r := Some c]) (Suc r) = (M', pcs')"
        by (simp add: Let_def M1_def M2_def)
      from Suc.hyps(1) [OF d step(1) sc e]
      have "rref m M' pcs' \<and> length M' = length M2 \<and>
         (\<forall>x. length x = m \<longrightarrow>
            (\<forall>i < length M'. row_holds m (M' ! i) x) = (\<forall>i < length M2. row_holds m (M2 ! i) x))"
        .
      then show ?thesis using step(2) sol by auto
    qed
  qed
qed

lemma augmented_length: "length (augmented A b) = length b"
  by (simp add: augmented_def)

lemma augmented_nth:
  "i < length b \<Longrightarrow> augmented A b ! i = map (\<lambda>row. row ! i) A @ [b ! i]"
  by (simp add: augmented_def)

lemma reduced_initial:
  "reduced (length A) 0 0 (augmented A b) (replicate (length b) None)"
  by (simp add: reduced_def augmented_length augmented_nth)

lemma eliminate_augmented:
  assumes "eliminate [0..<length A] (augmented A b) (replicate (length b) None) 0 = (M', pcs')"
  shows "rref (length A) M' pcs' \<and> length M' = length b \<and>
         (\<forall>x. solves (length A) M' x = solves (length A) (augmented A b) x)"
  using eliminate_rref [OF reduced_initial _ assms]
  by (auto simp: solves_def augmented_length)

lemma rref_inj:
  assumes "rref m M pcs" "i < length M" "k < length M" "pcs ! i = Some p" "pcs ! k = Some p"
  shows "i = k"
  using assms unfolding rref_def by metis

lemma particular_length:
  "\<forall>i \<in> set is. \<forall>p. pcs ! i = Some p \<longrightarrow> p < length xp \<Longrightarrow>
   length (particular M pcs is xp) = length xp"
  by (induction "is" arbitrary: xp) (auto split: option.splits)

lemma particular_nth:
  assumes "distinct is"
    and "\<forall>i \<in> set is. \<forall>k \<in> set is. \<forall>p. pcs ! i = Some p \<and> pcs ! k = Some p \<longrightarrow> i = k"
    and "j < length xp"
  shows "(\<forall>i \<in> set is. pcs ! i = Some j \<longrightarrow> particular M pcs is xp ! j = last (M ! i)) \<and>
         ((\<forall>i \<in> set is. pcs ! i \<noteq> Some j) \<longrightarrow> particular M pcs is xp ! j = xp ! j)"
  using assms
proof (induction "is" arbitrary: xp)
  case Nil
  then show ?case by simp
next
  case (Cons i0 rest)
  let ?xp = "case pcs ! i0 of None \<Rightarrow> xp | Some pc \<Rightarrow> xp[pc := last (M ! i0)]"
  have l: "j < length ?xp" using Cons.prems(3) by (simp split: option.splits)
  have d: "distinct rest" and i0: "i0 \<notin> set rest" using Cons.prems(1) by simp_all
  have inj: "\<forall>i \<in> set rest. \<forall>k \<in> set rest. \<forall>p. pcs ! i = Some p \<and> pcs ! k = Some p \<longrightarrow> i = k"
    using Cons.prems(2) by simp
  note IH = Cons.IH [OF d inj l]
  have eq: "particular M pcs (i0 # rest) xp = particular M pcs rest ?xp" by simp
  have a: "particular M pcs rest ?xp ! j = last (M ! i)" if "i \<in> set (i0 # rest)" "pcs ! i = Some j" for i
  proof (cases "i = i0")
    case False
    with that IH show ?thesis by auto
  next
    case True
    have "\<forall>k \<in> set rest. pcs ! k \<noteq> Some j"
    proof
      fix k assume k: "k \<in> set rest"
      show "pcs ! k \<noteq> Some j"
      proof
        assume "pcs ! k = Some j"
        with Cons.prems(2) that True k have "k = i0" by auto
        with k i0 show False by simp
      qed
    qed
    with IH have "particular M pcs rest ?xp ! j = ?xp ! j" by blast
    with that True Cons.prems(3) show ?thesis by simp
  qed
  have b: "particular M pcs rest ?xp ! j = xp ! j" if "\<forall>i \<in> set (i0 # rest). pcs ! i \<noteq> Some j"
  proof -
    from that IH have "particular M pcs rest ?xp ! j = ?xp ! j" by simp
    moreover have "?xp ! j = xp ! j" using that by (auto split: option.splits)
    ultimately show ?thesis by simp
  qed
  from a b show ?case unfolding eq by blast
qed

lemma back_substitute_length: "length (back_substitute M pcs fc is v) = length v"
  by (induction "is" arbitrary: v) (auto split: option.splits)

lemma back_substitute_nth:
  assumes "distinct is"
    and "\<forall>i \<in> set is. \<forall>k \<in> set is. \<forall>p. pcs ! i = Some p \<and> pcs ! k = Some p \<longrightarrow> i = k"
    and "\<forall>i \<in> set is. \<forall>p. pcs ! i = Some p \<longrightarrow> p < length v"
    and "j < length v"
  shows "back_substitute M pcs fc is v ! j = (v ! j \<noteq> (\<exists>i \<in> set is. pcs ! i = Some j \<and> M ! i ! fc))"
  using assms
proof (induction "is" arbitrary: v)
  case Nil
  then show ?case by simp
next
  case (Cons i0 rest)
  let ?v = "case pcs ! i0 of None \<Rightarrow> v | Some pc \<Rightarrow> if M ! i0 ! fc then v[pc := (v ! pc \<noteq> True)] else v"
  have lv: "length ?v = length v" by (simp split: option.splits)
  have d: "distinct rest" and i0: "i0 \<notin> set rest" using Cons.prems(1) by simp_all
  have inj: "\<forall>i \<in> set rest. \<forall>k \<in> set rest. \<forall>p. pcs ! i = Some p \<and> pcs ! k = Some p \<longrightarrow> i = k"
    using Cons.prems(2) by simp
  have rng: "\<forall>i \<in> set rest. \<forall>p. pcs ! i = Some p \<longrightarrow> p < length ?v"
    using Cons.prems(3) lv by simp
  have j: "j < length ?v" using Cons.prems(4) lv by simp
  have IH: "back_substitute M pcs fc rest ?v ! j = (?v ! j \<noteq> (\<exists>i \<in> set rest. pcs ! i = Some j \<and> M ! i ! fc))"
    by (rule Cons.IH [OF d inj rng j])
  have first: "?v ! j = (v ! j \<noteq> (pcs ! i0 = Some j \<and> M ! i0 ! fc))"
    using Cons.prems(3,4) by (auto split: option.splits simp: nth_list_update)
  have excl: "\<not> ((pcs ! i0 = Some j \<and> M ! i0 ! fc) \<and> (\<exists>i \<in> set rest. pcs ! i = Some j \<and> M ! i ! fc))"
  proof
    assume h: "(pcs ! i0 = Some j \<and> M ! i0 ! fc) \<and> (\<exists>i \<in> set rest. pcs ! i = Some j \<and> M ! i ! fc)"
    then obtain i where i: "i \<in> set rest" "pcs ! i = Some j" by blast
    with h Cons.prems(2) have "i = i0" by auto
    with i i0 show False by simp
  qed
  have "back_substitute M pcs fc (i0 # rest) v ! j = back_substitute M pcs fc rest ?v ! j" by simp
  also have "\<dots> = (?v ! j \<noteq> (\<exists>i \<in> set rest. pcs ! i = Some j \<and> M ! i ! fc))" by (rule IH)
  also have "\<dots> = (v ! j \<noteq> (\<exists>i \<in> set (i0 # rest). pcs ! i = Some j \<and> M ! i ! fc))"
    unfolding first using excl by auto
  finally show ?case .
qed

lemma combine_length:
  "\<forall>(b, v) \<in> set zs. length v = length x \<Longrightarrow> length (combine x zs) = length x"
  by (induction zs arbitrary: x) (auto simp: xor_row_length)

lemma combine_nth:
  "\<forall>(b, v) \<in> set zs. length v = length x \<Longrightarrow> j < length x \<Longrightarrow>
   combine x zs ! j = (x ! j \<noteq> par zs j)"
proof (induction zs arbitrary: x)
  case Nil
  then show ?case by simp
next
  case (Cons z zs)
  obtain b v where z: "z = (b, v)" by (cases z)
  let ?x = "if b then xor_row x v else x"
  from Cons.prems z have lv: "length v = length x" by simp
  then have lx: "length ?x = length x" by (simp add: xor_row_length)
  have "combine ?x zs ! j = (?x ! j \<noteq> par zs j)"
    using Cons.prems lx by (intro Cons.IH) auto
  moreover have "?x ! j = (x ! j \<noteq> (b \<and> v ! j))"
    using Cons.prems(2) lv by (simp add: xor_row_nth)
  ultimately show ?case using z by auto
qed

lemma combine_row_holds:
  assumes "\<forall>(b, v) \<in> set zs. length v = m \<and> \<not> dotn a v m" "length x = m"
  shows "dotn a (combine x zs) m = dotn a x m"
  using assms
proof (induction zs arbitrary: x)
  case Nil
  then show ?case by simp
next
  case (Cons z zs)
  obtain b v where z: "z = (b, v)" by (cases z)
  let ?x = "if b then xor_row x v else x"
  from Cons.prems z have lv: "length v = m" and hv: "\<not> dotn a v m" by auto
  have lx: "length ?x = m" using lv Cons.prems(2) by (simp add: xor_row_length)
  have "dotn a (combine ?x zs) m = dotn a ?x m"
    using Cons.prems lx by (intro Cons.IH) auto
  moreover have "dotn a ?x m = dotn a x m"
    using lv hv Cons.prems(2) by (simp add: dotn_xor_right)
  ultimately show ?case using z by simp
qed

lemma product01_set: "set (product01 k) = {xs. length xs = k}"
proof (induction k)
  case 0
  then show ?case by auto
next
  case (Suc k)
  show ?case
  proof (intro set_eqI iffI)
    fix xs assume "xs \<in> set (product01 (Suc k))"
    then show "xs \<in> {xs. length xs = Suc k}" using Suc by auto
  next
    fix xs :: "bool list" assume "xs \<in> {xs. length xs = Suc k}"
    then obtain b bs where xs: "xs = b # bs" "length bs = k" by (cases xs) auto
    then have "bs \<in> set (product01 k)" using Suc by simp
    then show "xs \<in> set (product01 (Suc k))" using xs by (cases b) auto
  qed
qed

lemma lightest_result:
  "\<exists>best'. lightest xp nvs masks best = best' \<and>
     (best' = best \<or> (\<exists>msk \<in> set masks. best' = PyInt (int (count_list (combine xp (zip msk nvs)) True)))) \<and>
     \<not> py_less best best' \<and>
     (\<forall>msk \<in> set masks. \<not> py_less (PyInt (int (count_list (combine xp (zip msk nvs)) True))) best')"
proof (induction masks arbitrary: best)
  case Nil
  show ?case by (cases best) simp_all
next
  case (Cons msk masks)
  let ?w = "PyInt (int (count_list (combine xp (zip msk nvs)) True))"
  let ?b = "if py_less ?w best then ?w else best"
  from Cons.IH [of ?b] obtain best' where
    r: "lightest xp nvs masks ?b = best'"
    and a: "best' = ?b \<or> (\<exists>msk \<in> set masks. best' = PyInt (int (count_list (combine xp (zip msk nvs)) True)))"
    and b: "\<not> py_less ?b best'"
    and c: "\<forall>msk \<in> set masks. \<not> py_less (PyInt (int (count_list (combine xp (zip msk nvs)) True))) best'"
    by blast
  have 1: "lightest xp nvs (msk # masks) best = best'" using r by (simp add: Let_def)
  have 2: "best' = best \<or> (\<exists>m \<in> set (msk # masks). best' = PyInt (int (count_list (combine xp (zip m nvs)) True)))"
    using a by (auto split: if_splits)
  have 3: "\<not> py_less best best'"
    using b by (cases best; cases best') (auto split: if_splits)
  have 4: "\<not> py_less ?w best'"
    using b by (cases best; cases best') (auto split: if_splits)
  from 1 2 3 4 c show ?case by auto
qed

lemma rref_last:
  assumes "rref m M pcs" "i < length M"
  shows "last (M ! i) = M ! i ! m"
proof -
  from assms have l: "length (M ! i) = Suc m" by (simp add: rref_def)
  then have "M ! i \<noteq> []" by auto
  then show ?thesis using l by (simp add: last_conv_nth)
qed

lemma rref_pivot_range:
  "rref m M pcs \<Longrightarrow> i < length M \<Longrightarrow> pcs ! i = Some p \<Longrightarrow> p < m"
  by (simp add: rref_def)

lemma particular_rref:
  assumes rr: "rref m M pcs"
  defines "xp \<equiv> particular M pcs [0..<length M] (replicate m False)"
  shows "length xp = m"
    and "\<And>i j. i < length M \<Longrightarrow> pcs ! i = Some j \<Longrightarrow> xp ! j = M ! i ! m"
    and "\<And>j. j < m \<Longrightarrow> \<forall>i < length M. pcs ! i \<noteq> Some j \<Longrightarrow> \<not> xp ! j"
proof -
  have rng: "\<forall>i \<in> set [0..<length M]. \<forall>p. pcs ! i = Some p \<longrightarrow> p < length (replicate m False)"
    using rref_pivot_range [OF rr] by simp
  show "length xp = m" unfolding xp_def using particular_length [OF rng] by simp
  have inj: "\<forall>i \<in> set [0..<length M]. \<forall>k \<in> set [0..<length M]. \<forall>p.
               pcs ! i = Some p \<and> pcs ! k = Some p \<longrightarrow> i = k"
    using rref_inj [OF rr] by auto
  have ch: "(\<forall>i \<in> set [0..<length M]. pcs ! i = Some j \<longrightarrow> xp ! j = last (M ! i)) \<and>
         ((\<forall>i \<in> set [0..<length M]. pcs ! i \<noteq> Some j) \<longrightarrow> xp ! j = replicate m False ! j)"
    if "j < m" for j
    unfolding xp_def using that by (intro particular_nth [OF _ inj]) simp_all
  show "xp ! j = M ! i ! m" if "i < length M" "pcs ! i = Some j" for i j
    using ch [OF rref_pivot_range [OF rr that]] that rref_last [OF rr that(1)] by simp
  show "\<not> xp ! j" if "j < m" "\<forall>i < length M. pcs ! i \<noteq> Some j" for j
    using ch [OF that(1)] that by simp
qed

lemma null_vector_rref:
  assumes rr: "rref m M pcs" and f: "f < m"
  shows "length (null_vector M pcs m f) = m"
    and "\<And>j. j < m \<Longrightarrow>
           null_vector M pcs m f ! j = ((j = f) \<noteq> (\<exists>i < length M. pcs ! i = Some j \<and> M ! i ! f))"
proof -
  let ?v = "(replicate m False)[f := True]"
  show "length (null_vector M pcs m f) = m"
    by (simp add: null_vector_def back_substitute_length)
  have inj: "\<forall>i \<in> set [0..<length M]. \<forall>k \<in> set [0..<length M]. \<forall>p.
               pcs ! i = Some p \<and> pcs ! k = Some p \<longrightarrow> i = k"
    using rref_inj [OF rr] by auto
  have rng: "\<forall>i \<in> set [0..<length M]. \<forall>p. pcs ! i = Some p \<longrightarrow> p < length ?v"
    using rref_pivot_range [OF rr] by simp
  show "null_vector M pcs m f ! j = ((j = f) \<noteq> (\<exists>i < length M. pcs ! i = Some j \<and> M ! i ! f))"
    if "j < m" for j
  proof -
    have "null_vector M pcs m f ! j = (?v ! j \<noteq> (\<exists>i \<in> set [0..<length M]. pcs ! i = Some j \<and> M ! i ! f))"
      unfolding null_vector_def using that by (intro back_substitute_nth [OF _ inj rng]) simp_all
    moreover have "?v ! j = (j = f)" using that f by (simp add: nth_list_update)
    ultimately show ?thesis by auto
  qed
qed

lemma free_columns_iff:
  "length pcs = n \<Longrightarrow> f \<in> set (free_columns m pcs) \<longleftrightarrow> f < m \<and> (\<forall>i < n. pcs ! i \<noteq> Some f)"
  by (auto simp: free_columns_def in_set_conv_nth)

lemma free_columns_distinct: "distinct (free_columns m pcs)"
  by (simp add: free_columns_def)

lemma inconsistent_iff:
  "inconsistent M pcs \<longleftrightarrow> (\<exists>i < length M. pcs ! i = None \<and> last (M ! i))"
  by (auto simp: inconsistent_def list_ex_iff)

lemma inconsistent_unsolvable:
  assumes rr: "rref m M pcs" and inc: "inconsistent M pcs"
  shows "\<not> solves m M x"
proof
  assume s: "solves m M x"
  from inc obtain i where i: "i < length M" "pcs ! i = None" "last (M ! i)"
    by (auto simp: inconsistent_iff)
  from rr i have "\<forall>c < m. \<not> M ! i ! c" by (simp add: rref_def)
  then have "\<not> dotn (M ! i) x m" by (intro dotn_zero) simp
  moreover from s i have "row_holds m (M ! i) x" by (simp add: solves_def)
  ultimately show False using i rref_last [OF rr i(1)] by (simp add: row_holds_def)
qed

lemma particular_solves:
  assumes rr: "rref m M pcs" and con: "\<not> inconsistent M pcs"
  shows "solves m M (particular M pcs [0..<length M] (replicate m False))"
proof -
  let ?xp = "particular M pcs [0..<length M] (replicate m False)"
  note xp = particular_rref [OF rr]
  have "row_holds m (M ! i) ?xp" if i: "i < length M" for i
  proof (cases "pcs ! i")
    case None
    with rr i have "\<forall>c < m. \<not> M ! i ! c" by (simp add: rref_def)
    then have "\<not> dotn (M ! i) ?xp m" by (intro dotn_zero) simp
    moreover have "\<not> M ! i ! m"
      using con None i rref_last [OF rr i] by (auto simp: inconsistent_iff)
    ultimately show ?thesis by (simp add: row_holds_def)
  next
    case (Some p)
    from rr i Some have p: "p < m" "M ! i ! p"
      and col: "\<forall>k < length M. k \<noteq> i \<longrightarrow> \<not> M ! k ! p" by (auto simp: rref_def)
    have supp: "\<forall>c < m. c \<noteq> p \<longrightarrow> \<not> (M ! i ! c \<and> ?xp ! c)"
    proof (intro allI impI notI)
      fix c assume c: "c < m" "c \<noteq> p" and h: "M ! i ! c \<and> ?xp ! c"
      show False
      proof (cases "\<exists>k < length M. pcs ! k = Some c")
        case False
        with xp(3) [OF c(1)] h show False by simp
      next
        case True
        then obtain k where k: "k < length M" "pcs ! k = Some c" by blast
        with rr have "\<forall>k' < length M. k' \<noteq> k \<longrightarrow> \<not> M ! k' ! c" by (simp add: rref_def)
        with h i have "i = k" by auto
        with k Some c show False by simp
      qed
    qed
    have "dotn (M ! i) ?xp m = (p < m \<and> M ! i ! p \<and> ?xp ! p)" by (rule dotn_single [OF supp])
    also have "\<dots> = ?xp ! p" using p by simp
    also have "\<dots> = M ! i ! m" by (rule xp(2) [OF i Some])
    finally show ?thesis by (simp add: row_holds_def)
  qed
  with xp(1) show ?thesis by (simp add: solves_def)
qed

lemma null_vector_homogeneous:
  assumes rr: "rref m M pcs" and f: "f \<in> set (free_columns m pcs)" and i: "i < length M"
  shows "\<not> dotn (M ! i) (null_vector M pcs m f) m"
proof -
  let ?v = "null_vector M pcs m f"
  from rr have lp: "length pcs = length M" by (simp add: rref_def)
  from f have fm: "f < m" and ff: "\<forall>k < length M. pcs ! k \<noteq> Some f"
    by (simp_all add: free_columns_iff [OF lp])
  note nv = null_vector_rref [OF rr fm]
  show ?thesis
  proof (cases "pcs ! i")
    case None
    with rr i have "\<forall>c < m. \<not> M ! i ! c" by (simp add: rref_def)
    then show ?thesis by (intro dotn_zero) simp
  next
    case (Some p)
    from rr i Some have p: "p < m" "M ! i ! p"
      and col: "\<forall>k < length M. k \<noteq> i \<longrightarrow> \<not> M ! k ! p" by (auto simp: rref_def)
    from ff i Some have pf: "f \<noteq> p" by auto
    have supp: "\<forall>c < m. c \<noteq> f \<and> c \<noteq> p \<longrightarrow> \<not> (M ! i ! c \<and> ?v ! c)"
    proof (intro allI impI notI)
      fix c assume c: "c < m" "c \<noteq> f \<and> c \<noteq> p" and h: "M ! i ! c \<and> ?v ! c"
      from h nv(2) [OF c(1)] c(2) obtain k where k: "k < length M" "pcs ! k = Some c" by auto
      with rr have "\<forall>k' < length M. k' \<noteq> k \<longrightarrow> \<not> M ! k' ! c" by (simp add: rref_def)
      with h i have "i = k" by auto
      with k Some c show False by simp
    qed
    have vf: "?v ! f" using nv(2) [OF fm] ff by auto
    have "(\<exists>k < length M. pcs ! k = Some p \<and> M ! k ! f) = M ! i ! f"
    proof
      assume "\<exists>k < length M. pcs ! k = Some p \<and> M ! k ! f"
      then obtain k where k: "k < length M" "pcs ! k = Some p" "M ! k ! f" by blast
      from rref_inj [OF rr k(1) i k(2) Some] k(3) show "M ! i ! f" by simp
    next
      assume "M ! i ! f"
      with i Some show "\<exists>k < length M. pcs ! k = Some p \<and> M ! k ! f" by blast
    qed
    then have vp: "?v ! p = M ! i ! f" using nv(2) [OF p(1)] pf by auto
    have "dotn (M ! i) ?v m = ((f < m \<and> M ! i ! f \<and> ?v ! f) \<noteq> (p < m \<and> M ! i ! p \<and> ?v ! p))"
      by (rule dotn_two [OF pf supp])
    then show ?thesis using fm p vf vp by simp
  qed
qed

lemma enumerated_solves:
  assumes rr: "rref m M pcs" and con: "\<not> inconsistent M pcs"
  defines "xp \<equiv> particular M pcs [0..<length M] (replicate m False)"
  defines "nvs \<equiv> map (null_vector M pcs m) (free_columns m pcs)"
  shows "solves m M (combine xp (zip msk nvs))"
proof -
  from rr have lp: "length pcs = length M" by (simp add: rref_def)
  have xps: "solves m M xp" unfolding xp_def by (rule particular_solves [OF rr con])
  then have lx: "length xp = m" by (simp add: solves_def)
  have nv: "length v = m \<and> (\<forall>i < length M. \<not> dotn (M ! i) v m)"
    if "(b, v) \<in> set (zip msk nvs)" for b v
  proof -
    from that have "v \<in> set nvs" by (rule set_zip_rightD)
    then obtain f where f: "f \<in> set (free_columns m pcs)" and v: "v = null_vector M pcs m f"
      by (auto simp: nvs_def)
    from f have "f < m" by (simp add: free_columns_iff [OF lp])
    with null_vector_rref(1) [OF rr this] null_vector_homogeneous [OF rr f] v show ?thesis by simp
  qed
  have len: "length (combine xp (zip msk nvs)) = m"
    using combine_length [of "zip msk nvs" xp] nv lx by auto
  have "row_holds m (M ! i) (combine xp (zip msk nvs))" if i: "i < length M" for i
  proof -
    have "dotn (M ! i) (combine xp (zip msk nvs)) m = dotn (M ! i) xp m"
      using nv i lx by (intro combine_row_holds) auto
    with xps i show ?thesis by (simp add: solves_def row_holds_def)
  qed
  with len show ?thesis by (simp add: solves_def)
qed

lemma par_free:
  assumes "distinct fs" "\<forall>f \<in> set fs. nv f ! j = (j = f)"
  shows "par (zip (map g fs) (map nv fs)) j = (j \<in> set fs \<and> g j)"
  using assms by (induction fs) auto

lemma solution_enumerated:
  assumes rr: "rref m M pcs" and con: "\<not> inconsistent M pcs" and y: "solves m M y"
  defines "xp \<equiv> particular M pcs [0..<length M] (replicate m False)"
  defines "free \<equiv> free_columns m pcs"
  defines "nvs \<equiv> map (null_vector M pcs m) free"
  shows "combine xp (zip (map (\<lambda>f. y ! f) free) nvs) = y"
proof -
  let ?x = "combine xp (zip (map (\<lambda>f. y ! f) free) nvs)"
  let ?zs = "zip (map (\<lambda>f. y ! f) free) nvs"
  from rr have lp: "length pcs = length M" by (simp add: rref_def)
  note xp = particular_rref [OF rr, folded xp_def]
  have xs: "solves m M ?x"
    unfolding xp_def nvs_def free_def by (rule enumerated_solves [OF rr con])
  then have lx: "length ?x = m" by (simp add: solves_def)
  from y have ly: "length y = m" by (simp add: solves_def)
  have lens: "\<forall>(b, v) \<in> set ?zs. length v = length xp"
  proof (clarify)
    fix b v assume "(b, v) \<in> set ?zs"
    then have "v \<in> set nvs" by (rule set_zip_rightD)
    then obtain f where "f \<in> set free" "v = null_vector M pcs m f" by (auto simp: nvs_def)
    then show "length v = length xp"
      using null_vector_rref(1) [OF rr] xp(1) by (simp add: free_def free_columns_iff [OF lp])
  qed
  have free_eq: "?x ! j = y ! j" if j: "j \<in> set free" for j
  proof -
    from j have jm: "j < m" and jf: "\<forall>i < length M. pcs ! i \<noteq> Some j"
      by (simp_all add: free_def free_columns_iff [OF lp])
    have nvj: "\<forall>f \<in> set free. null_vector M pcs m f ! j = (j = f)"
    proof
      fix f assume "f \<in> set free"
      then have "f < m" by (simp add: free_def free_columns_iff [OF lp])
      from null_vector_rref(2) [OF rr this jm] jf show "null_vector M pcs m f ! j = (j = f)" by auto
    qed
    have "par ?zs j = (j \<in> set free \<and> y ! j)"
      unfolding nvs_def by (rule par_free [OF _ nvj]) (simp add: free_def free_columns_distinct)
    moreover have "?x ! j = (xp ! j \<noteq> par ?zs j)"
      using jm xp(1) by (intro combine_nth [OF lens]) simp
    moreover have "\<not> xp ! j" by (rule xp(3) [OF jm jf])
    ultimately show ?thesis using j by simp
  qed
  have piv_eq: "?x ! j = y ! j" if i: "i < length M" and pj: "pcs ! i = Some j" for i j
  proof -
    let ?z = "xor_row ?x y"
    from rr i pj have jm: "j < m" and Mij: "M ! i ! j"
      and col: "\<forall>k < length M. k \<noteq> i \<longrightarrow> \<not> M ! k ! j" by (auto simp: rref_def)
    have zn: "?z ! c = (?x ! c \<noteq> y ! c)" if "c < m" for c
      using that lx ly by (simp add: xor_row_nth)
    have supp: "\<forall>c < m. c \<noteq> j \<longrightarrow> \<not> (M ! i ! c \<and> ?z ! c)"
    proof (intro allI impI notI)
      fix c assume c: "c < m" "c \<noteq> j" and h: "M ! i ! c \<and> ?z ! c"
      show False
      proof (cases "c \<in> set free")
        case True
        from free_eq [OF True] zn [OF c(1)] h show False by simp
      next
        case False
        with c(1) obtain k where k: "k < length M" "pcs ! k = Some c"
          by (auto simp: free_def free_columns_iff [OF lp])
        with rr have "\<forall>k' < length M. k' \<noteq> k \<longrightarrow> \<not> M ! k' ! c" by (simp add: rref_def)
        with h i have "i = k" by auto
        with k pj c show False by simp
      qed
    qed
    have "dotn (M ! i) ?z m = (j < m \<and> M ! i ! j \<and> ?z ! j)" by (rule dotn_single [OF supp])
    moreover have "dotn (M ! i) ?z m = (dotn (M ! i) ?x m \<noteq> dotn (M ! i) y m)"
      using lx ly by (intro dotn_xor_right) simp_all
    moreover have "dotn (M ! i) ?x m = dotn (M ! i) y m"
      using xs y i by (simp add: solves_def row_holds_def)
    ultimately have "\<not> ?z ! j" using jm Mij by simp
    with zn [OF jm] show ?thesis by simp
  qed
  show ?thesis
  proof (rule nth_equalityI)
    show "length ?x = length y" using lx ly by simp
  next
    fix j assume "j < length ?x"
    then have jm: "j < m" using lx by simp
    show "?x ! j = y ! j"
    proof (cases "j \<in> set free")
      case True
      then show ?thesis by (rule free_eq)
    next
      case False
      with jm obtain i where "i < length M" "pcs ! i = Some j"
        by (auto simp: free_def free_columns_iff [OF lp])
      then show ?thesis by (rule piv_eq)
    qed
  qed
qed

lemma lightest_rref:
  assumes rr: "rref m M pcs" and con: "\<not> inconsistent M pcs"
  defines "xp \<equiv> particular M pcs [0..<length M] (replicate m False)"
  defines "free \<equiv> free_columns m pcs"
  defines "nvs \<equiv> map (null_vector M pcs m) free"
  shows "\<exists>R. lightest xp nvs (product01 (length free)) PyInf = PyInt (int R) \<and>
             (\<exists>x. solves m M x \<and> hamming_weight x = R) \<and>
             (\<forall>y. solves m M y \<longrightarrow> R \<le> hamming_weight y)"
proof -
  let ?w = "\<lambda>msk. PyInt (int (count_list (combine xp (zip msk nvs)) True))"
  from lightest_result [of xp nvs "product01 (length free)" PyInf] obtain best' where
    r: "lightest xp nvs (product01 (length free)) PyInf = best'"
    and a: "best' = PyInf \<or> (\<exists>msk \<in> set (product01 (length free)). best' = ?w msk)"
    and c: "\<forall>msk \<in> set (product01 (length free)). \<not> py_less (?w msk) best'"
    by blast
  have sol: "solves m M (combine xp (zip msk nvs))" for msk
    unfolding xp_def nvs_def free_def by (rule enumerated_solves [OF rr con])
  have all: "\<not> py_less (PyInt (int (hamming_weight y))) best'" if y: "solves m M y" for y
  proof -
    let ?msk = "map (\<lambda>f. y ! f) free"
    have "combine xp (zip ?msk nvs) = y"
      unfolding xp_def nvs_def free_def by (rule solution_enumerated [OF rr con y])
    moreover have "?msk \<in> set (product01 (length free))" by (simp add: product01_set)
    ultimately show ?thesis using c by (force simp: hamming_weight_def)
  qed
  from all [OF sol [of "[]"]] have "best' \<noteq> PyInf" by auto
  with a obtain msk where b: "best' = ?w msk" by blast
  let ?x = "combine xp (zip msk nvs)"
  have "solves m M ?x \<and> hamming_weight ?x = count_list ?x True"
    using sol by (simp add: hamming_weight_def)
  moreover have "\<forall>y. solves m M y \<longrightarrow> count_list ?x True \<le> hamming_weight y"
    using all b by (auto simp: not_less)
  ultimately show ?thesis using r b by blast
qed

lemma gf2_solve_minweight_result:
  assumes ne: "A \<noteq> []" and rect: "\<forall>row \<in> set A. length row = length target"
  shows "(if \<exists>x. solves (length A) (augmented A target) x
          then \<exists>R. gf2_solve_minweight target A = Inr (PyInt (int R)) \<and>
                 (\<exists>x. solves (length A) (augmented A target) x \<and> hamming_weight x = R) \<and>
                 (\<forall>y. solves (length A) (augmented A target) y \<longrightarrow> R \<le> hamming_weight y)
          else gf2_solve_minweight target A = Inr PyInf)"
proof -
  let ?m = "length A"
  let ?M0 = "augmented A target"
  obtain M pcs where el: "eliminate [0..<?m] ?M0 (replicate (length target) None) 0 = (M, pcs)"
    by (cases "eliminate [0..<?m] ?M0 (replicate (length target) None) 0")
  from eliminate_augmented [OF el] have rr: "rref ?m M pcs" and lM: "length M = length target"
    and same: "\<And>x. solves ?m M x = solves ?m ?M0 x" by auto
  from ne rect have shape: "\<not> (A = [] \<or> (\<exists>row \<in> set A. length row \<noteq> length (hd A)) \<or>
      length (hd A) \<noteq> length target)"
    by (cases A) auto
  show ?thesis
  proof (cases "inconsistent M pcs")
    case True
    have "gf2_solve_minweight target A = Inr PyInf"
      unfolding gf2_solve_minweight_def using shape el True
      by (simp add: Let_def augmented_length)
    moreover have "\<not> (\<exists>x. solves ?m ?M0 x)"
      using inconsistent_unsolvable [OF rr True] same by simp
    ultimately show ?thesis by simp
  next
    case False
    let ?xp = "particular M pcs [0..<length M] (replicate ?m False)"
    let ?free = "free_columns ?m pcs"
    let ?nvs = "map (null_vector M pcs ?m) ?free"
    have eq: "gf2_solve_minweight target A = Inr (lightest ?xp ?nvs (product01 (length ?free)) PyInf)"
      unfolding gf2_solve_minweight_def using shape el False lM
      by (simp add: Let_def augmented_length)
    from lightest_rref [OF rr False] obtain R where
      "lightest ?xp ?nvs (product01 (length ?free)) PyInf = PyInt (int R)"
      "\<exists>x. solves ?m M x \<and> hamming_weight x = R"
      "\<forall>y. solves ?m M y \<longrightarrow> R \<le> hamming_weight y" by blast
    then show ?thesis using eq same by auto
  qed
qed

lemma gf2_solve_minweight_shape:
  "A = [] \<Longrightarrow> gf2_solve_minweight target A = Inl ValueError"
  by (simp add: gf2_solve_minweight_def)

lemma append_rows1_result:
  "indices_in_range n buttons \<Longrightarrow>
   \<exists>A'. append_rows1 n A buttons = Inr A' \<and> length A' = length A + length buttons \<and>
        (\<forall>j < length A. A' ! j = A ! j) \<and>
        (\<forall>j < length buttons. length (A' ! (length A + j)) = n \<and>
           (\<forall>i < n. A' ! (length A + j) ! i = odd (count_list (buttons ! j) i)))"
proof (induction buttons arbitrary: A)
  case Nil
  then show ?case by simp
next
  case (Cons btn buttons)
  from Cons.prems have inr: "\<forall>l \<in> set btn. l < length (replicate n False)"
    and rest: "indices_in_range n buttons"
    by (auto simp: indices_in_range_def)
  from toggle_all_result [OF inr] obtain row
    where row: "toggle_all (replicate n False) btn = Inr row"
      and len: "length row = n"
      and ent: "\<forall>i < n. row ! i = odd (count_list btn i)" by auto
  from Cons.IH [OF rest, of "A @ [row]"] obtain A'
    where A': "append_rows1 n (A @ [row]) buttons = Inr A'"
      and l: "length A' = length (A @ [row]) + length buttons"
      and old: "\<forall>j < length (A @ [row]). A' ! j = (A @ [row]) ! j"
      and new: "\<forall>j < length buttons. length (A' ! (length (A @ [row]) + j)) = n \<and>
           (\<forall>i < n. A' ! (length (A @ [row]) + j) ! i = odd (count_list (buttons ! j) i))"
    by blast
  have eq: "append_rows1 n A (btn # buttons) = Inr A'" using row A' by simp
  have old': "\<forall>j < length A. A' ! j = A ! j"
    using old by (auto simp: nth_append)
  have here: "A' ! length A = row" using old by (simp add: nth_append)
  have new': "\<forall>j < length (btn # buttons). length (A' ! (length A + j)) = n \<and>
           (\<forall>i < n. A' ! (length A + j) ! i = odd (count_list ((btn # buttons) ! j) i))"
  proof (intro allI impI)
    fix j assume j: "j < length (btn # buttons)"
    show "length (A' ! (length A + j)) = n \<and>
           (\<forall>i < n. A' ! (length A + j) ! i = odd (count_list ((btn # buttons) ! j) i))"
    proof (cases j)
      case 0
      then show ?thesis using here len ent by simp
    next
      case (Suc j')
      with j have "j' < length buttons" by simp
      with new Suc show ?thesis by simp
    qed
  qed
  from eq l old' new' show ?case by auto
qed

lemma parse_line_part1_parity:
  assumes "indices_in_range (length target) buttons"
  shows "\<exists>A. parse_line_part1 target buttons = Inr (target, A) \<and>
             length A = length buttons \<and>
             (\<forall>j < length buttons. length (A ! j) = length target \<and>
                (\<forall>i < length target. A ! j ! i = odd (count_list (buttons ! j) i)))"
  using append_rows1_result [OF assms, of "[]"]
  by (auto simp: parse_line_part1_def)

lemma dotn_augmented:
  assumes A: "length A = length buttons"
    "\<forall>j < length buttons. A ! j ! i = odd (count_list (buttons ! j) i)"
    and i: "i < length target" and k: "k \<le> length A"
  shows "dotn (augmented A target ! i) x k =
           odd (\<Sum>j \<leftarrow> [0..<k]. if x ! j then count_list (buttons ! j) i else 0)"
  using k
proof (induction k)
  case 0
  then show ?case by simp
next
  case (Suc k)
  then have k: "k < length A" by simp
  have "augmented A target ! i ! k = A ! k ! i"
    using i k by (simp add: augmented_nth nth_append)
  with Suc A k show ?case by auto
qed

lemma solves_augmented:
  assumes A: "length A = length buttons"
    "\<forall>j < length buttons. \<forall>i < length target. A ! j ! i = odd (count_list (buttons ! j) i)"
  shows "solves (length A) (augmented A target) x = reaches_bits target buttons x"
proof -
  have "row_holds (length A) (augmented A target ! i) x = (odd (toggles_of buttons x i) = target ! i)"
    if i: "i < length target" for i
  proof -
    have "dotn (augmented A target ! i) x (length A) =
           odd (\<Sum>j \<leftarrow> [0..<length A]. if x ! j then count_list (buttons ! j) i else 0)"
      using A i by (intro dotn_augmented) simp_all
    moreover have "augmented A target ! i ! length A = target ! i"
      using i by (simp add: augmented_nth nth_append)
    ultimately show ?thesis using A(1) by (simp add: row_holds_def toggles_of_def)
  qed
  then show ?thesis using A(1)
    by (auto simp: solves_def reaches_bits_def augmented_length)
qed

lemma gf2_machine:
  assumes wf: "indices_in_range (length target) buttons" and ne: "buttons \<noteq> []"
  shows "\<exists>A. parse_line_part1 target buttons = Inr (target, A) \<and>
          (if toggle_feasible target buttons
           then \<exists>R. gf2_solve_minweight target A = Inr (PyInt (int R)) \<and>
                    min_hamming_weight target buttons R
           else gf2_solve_minweight target A = Inr PyInf)"
proof -
  from parse_line_part1_parity [OF wf] obtain A where
    p: "parse_line_part1 target buttons = Inr (target, A)"
    and l: "length A = length buttons"
    and rows: "\<forall>j < length buttons. length (A ! j) = length target \<and>
                (\<forall>i < length target. A ! j ! i = odd (count_list (buttons ! j) i))" by blast
  from l ne have ne': "A \<noteq> []" by auto
  have rect: "\<forall>row \<in> set A. length row = length target"
    using rows l by (auto simp: in_set_conv_nth)
  have s: "solves (length A) (augmented A target) x = reaches_bits target buttons x" for x
    using rows by (intro solves_augmented [OF l]) simp
  from gf2_solve_minweight_result [OF ne' rect] p show ?thesis
    unfolding s toggle_feasible_def min_hamming_weight_def by auto
qed

text \<open>The outcome of the elimination on every machine, the one with no button included.\<close>

lemma gf2_machine_outcome:
  assumes wf: "indices_in_range (length lights) buttons"
  shows "\<exists>A. parse_line_part1 lights buttons = Inr (lights, A) \<and>
           (if buttons = [] then gf2_solve_minweight lights A = Inl ValueError
            else if toggle_feasible lights buttons
            then \<exists>R. gf2_solve_minweight lights A = Inr (PyInt (int R)) \<and>
                     min_hamming_weight lights buttons R
            else gf2_solve_minweight lights A = Inr PyInf)"
proof (cases "buttons = []")
  case True
  have "parse_line_part1 lights [] = Inr (lights, [])" by (simp add: parse_line_part1_def)
  moreover have "gf2_solve_minweight lights [] = Inl ValueError"
    by (simp add: gf2_solve_minweight_def)
  ultimately show ?thesis using True by simp
next
  case False
  from gf2_machine [OF wf False] False show ?thesis by simp
qed

section \<open>Properties of the increment matrix\<close>

lemma count_indices_length:
  "count_indices row btn = Inr row' \<Longrightarrow> length row' = length row"
  by (induction btn arbitrary: row) (auto split: if_splits)

lemma count_indices_nth:
  "count_indices row btn = Inr row' \<Longrightarrow> i < length row \<Longrightarrow>
   row' ! i = row ! i + int (count_list btn i)"
proof (induction btn arbitrary: row)
  case Nil
  then show ?case by simp
next
  case (Cons idx btn)
  from Cons.prems(1) have idx: "idx < length row"
    and rest: "count_indices (row[idx := row ! idx + 1]) btn = Inr row'"
    by (auto split: if_splits)
  from Cons.IH [OF rest] Cons.prems(2)
  have "row' ! i = row[idx := row ! idx + 1] ! i + int (count_list btn i)" by simp
  with idx Cons.prems(2) show ?case by (cases "idx = i") simp_all
qed

lemma count_indices_total:
  "\<forall>i \<in> set btn. i < length row \<Longrightarrow> \<exists>row'. count_indices row btn = Inr row'"
  by (induction btn arbitrary: row) auto

lemma append_rows2_result:
  "indices_in_range k buttons \<Longrightarrow>
   \<exists>A'. append_rows2 k A buttons = Inr A' \<and> length A' = length A + length buttons \<and>
        (\<forall>j < length A. A' ! j = A ! j) \<and>
        (\<forall>j < length buttons. length (A' ! (length A + j)) = k \<and>
           (\<forall>i < k. A' ! (length A + j) ! i = int (count_list (buttons ! j) i)))"
proof (induction buttons arbitrary: A)
  case Nil
  then show ?case by simp
next
  case (Cons btn buttons)
  from Cons.prems have inr: "\<forall>i \<in> set btn. i < length (replicate k (0::int))"
    and rest: "indices_in_range k buttons"
    by (auto simp: indices_in_range_def)
  from count_indices_total [OF inr] obtain row
    where row: "count_indices (replicate k 0) btn = Inr row" by blast
  have len: "length row = k" using count_indices_length [OF row] by simp
  have ent: "\<forall>i < k. row ! i = int (count_list btn i)"
    using count_indices_nth [OF row] by simp
  from Cons.IH [OF rest, of "A @ [row]"] obtain A'
    where A': "append_rows2 k (A @ [row]) buttons = Inr A'"
      and l: "length A' = length (A @ [row]) + length buttons"
      and old: "\<forall>j < length (A @ [row]). A' ! j = (A @ [row]) ! j"
      and new: "\<forall>j < length buttons. length (A' ! (length (A @ [row]) + j)) = k \<and>
           (\<forall>i < k. A' ! (length (A @ [row]) + j) ! i = int (count_list (buttons ! j) i))"
    by blast
  have eq: "append_rows2 k A (btn # buttons) = Inr A'" using row A' by simp
  have old': "\<forall>j < length A. A' ! j = A ! j"
    using old by (auto simp: nth_append)
  have here: "A' ! length A = row" using old by (simp add: nth_append)
  have new': "\<forall>j < length (btn # buttons). length (A' ! (length A + j)) = k \<and>
           (\<forall>i < k. A' ! (length A + j) ! i = int (count_list ((btn # buttons) ! j) i))"
  proof (intro allI impI)
    fix j assume j: "j < length (btn # buttons)"
    show "length (A' ! (length A + j)) = k \<and>
           (\<forall>i < k. A' ! (length A + j) ! i = int (count_list ((btn # buttons) ! j) i))"
    proof (cases j)
      case 0
      then show ?thesis using here len ent by simp
    next
      case (Suc j')
      with j have "j' < length buttons" by simp
      with new Suc show ?thesis by simp
    qed
  qed
  from eq l old' new' show ?case by auto
qed

lemma parse_line_part2_counts:
  assumes "indices_in_range (length target) buttons"
  shows "\<exists>A. parse_line_part2 target buttons = Inr (target, A) \<and>
             length A = length buttons \<and>
             (\<forall>j < length buttons. length (A ! j) = length target \<and>
                (\<forall>i < length target. A ! j ! i = int (count_list (buttons ! j) i)))"
  using append_rows2_result [OF assms, of "[]"]
  by (auto simp: parse_line_part2_def)

section \<open>Properties of the increment solvers\<close>

lemma mark_button_result:
  assumes "\<forall>i \<in> set button. i < length A"
  shows "\<exists>A'. mark_button A j button = Inr A' \<and> length A' = length A \<and>
           (\<forall>i < length A. length (A' ! i) = length (A ! i) \<and>
              (\<forall>j' < length (A ! i). A' ! i ! j' = (if j' = j \<and> i \<in> set button then 1 else A ! i ! j')))"
  using assms
proof (induction button arbitrary: A)
  case Nil
  then show ?case by simp
next
  case (Cons i0 button)
  let ?A = "A[i0 := (A ! i0)[j := 1]]"
  from Cons.prems have i0: "i0 < length A" and rest: "\<forall>i \<in> set button. i < length ?A" by auto
  from Cons.IH [OF rest] obtain A' where
    r: "mark_button ?A j button = Inr A'" and l: "length A' = length ?A"
    and n: "\<forall>i < length ?A. length (A' ! i) = length (?A ! i) \<and>
              (\<forall>j' < length (?A ! i). A' ! i ! j' = (if j' = j \<and> i \<in> set button then 1 else ?A ! i ! j'))"
    by blast
  have "length (A' ! i) = length (A ! i) \<and>
        (\<forall>j' < length (A ! i). A' ! i ! j' = (if j' = j \<and> i \<in> set (i0 # button) then 1 else A ! i ! j'))"
    if i: "i < length A" for i
  proof (cases "i = i0")
    case True
    with n i show ?thesis by (auto simp: nth_list_update)
  next
    case False
    with n i show ?thesis by auto
  qed
  with r l i0 show ?case by simp
qed

lemma mark_buttons_result:
  assumes "indices_in_range (length A) buttons"
  shows "\<exists>A'. mark_buttons A j0 buttons = Inr A' \<and> length A' = length A \<and>
           (\<forall>i < length A. length (A' ! i) = length (A ! i) \<and>
              (\<forall>j' < length (A ! i). A' ! i ! j' =
                 (if j0 \<le> j' \<and> j' < j0 + length buttons \<and> i \<in> set (buttons ! (j' - j0)) then 1
                  else A ! i ! j')))"
  using assms
proof (induction buttons arbitrary: A j0)
  case Nil
  then show ?case by simp
next
  case (Cons button buttons)
  from Cons.prems have b: "\<forall>i \<in> set button. i < length A"
    by (simp add: indices_in_range_def)
  from mark_button_result [OF b, of j0] obtain A1 where
    r1: "mark_button A j0 button = Inr A1" and l1: "length A1 = length A"
    and n1: "\<forall>i < length A. length (A1 ! i) = length (A ! i) \<and>
              (\<forall>j' < length (A ! i). A1 ! i ! j' = (if j' = j0 \<and> i \<in> set button then 1 else A ! i ! j'))"
    by blast
  from Cons.prems l1 have w: "indices_in_range (length A1) buttons"
    by (simp add: indices_in_range_def)
  from Cons.IH [OF w, of "j0 + 1"] obtain A' where
    r: "mark_buttons A1 (j0 + 1) buttons = Inr A'" and l: "length A' = length A1"
    and n: "\<forall>i < length A1. length (A' ! i) = length (A1 ! i) \<and>
              (\<forall>j' < length (A1 ! i). A' ! i ! j' =
                 (if j0 + 1 \<le> j' \<and> j' < j0 + 1 + length buttons \<and> i \<in> set (buttons ! (j' - (j0 + 1))) then 1
                  else A1 ! i ! j'))"
    by blast
  have "length (A' ! i) = length (A ! i) \<and>
        (\<forall>j' < length (A ! i). A' ! i ! j' =
           (if j0 \<le> j' \<and> j' < j0 + length (button # buttons) \<and> i \<in> set ((button # buttons) ! (j' - j0)) then 1
            else A ! i ! j'))"
    if i: "i < length A" for i
  proof (intro conjI allI impI)
    show "length (A' ! i) = length (A ! i)" using n n1 l1 i by simp
  next
    fix j' assume j': "j' < length (A ! i)"
    have a: "A' ! i ! j' =
                 (if j0 + 1 \<le> j' \<and> j' < j0 + 1 + length buttons \<and> i \<in> set (buttons ! (j' - (j0 + 1))) then 1
                  else A1 ! i ! j')"
      using n n1 l1 i j' by simp
    have b: "A1 ! i ! j' = (if j' = j0 \<and> i \<in> set button then 1 else A ! i ! j')"
      using n1 i j' by simp
    show "A' ! i ! j' =
           (if j0 \<le> j' \<and> j' < j0 + length (button # buttons) \<and> i \<in> set ((button # buttons) ! (j' - j0)) then 1
            else A ! i ! j')"
    proof (cases "j' = j0")
      case True
      then show ?thesis using a b by simp
    next
      case False
      show ?thesis
      proof (cases "j0 < j'")
        case True
        then obtain d where d: "j' - j0 = Suc d" "j' - (j0 + 1) = d"
          by (metis Suc_diff_Suc Suc_eq_plus1 diff_diff_left)
        with True False a b show ?thesis by auto
      next
        case F: False
        with False a b show ?thesis by auto
      qed
    qed
  qed
  with r1 r l l1 show ?case by simp
qed

lemma joltage_matrix_result:
  assumes "indices_in_range n buttons"
  shows "\<exists>A. joltage_matrix n buttons = Inr A \<and> length A = n \<and>
           (\<forall>i < n. length (A ! i) = length buttons \<and>
              (\<forall>j < length buttons. A ! i ! j = (if i \<in> set (buttons ! j) then 1 else 0)))"
proof -
  let ?Z = "replicate n (replicate (length buttons) (0::int))"
  have w: "indices_in_range (length ?Z) buttons" using assms by simp
  from mark_buttons_result [OF w, of 0] show ?thesis
    unfolding joltage_matrix_def by auto
qed

lemma sum_list_zip_nth:
  fixes row x :: "'a::comm_semiring_1 list"
  assumes "length row = length x"
  shows "(\<Sum>(a, v) \<leftarrow> zip row x. a * v) = (\<Sum>j < length x. row ! j * x ! j)"
proof -
  have "(\<Sum>(a, v) \<leftarrow> zip row x. a * v) = (\<Sum>i = 0..<length (zip row x). (map (\<lambda>(a, v). a * v) (zip row x)) ! i)"
    by (simp add: sum_list_sum_nth)
  also have "\<dots> = (\<Sum>j < length x. row ! j * x ! j)"
    using assms by (simp add: atLeast0LessThan)
  finally show ?thesis .
qed

lemma mat_vec_nth:
  assumes "i < length A" "length (A ! i) = length x"
  shows "mat_vec A x ! i = (\<Sum>j < length x. A ! i ! j * x ! j)"
  using assms by (simp add: mat_vec_def sum_list_zip_nth)

lemma objective_ones:
  "length x = m \<Longrightarrow> objective (replicate m 1) x = sum_list x"
  by (simp add: objective_def sum_list_sum_nth atLeast0LessThan)

lemma accepts_feasible:
  assumes acc: "accepts A b r" and A: "length A = length b" "\<forall>i < length A. length (A ! i) = length r"
  shows "lp_feasible A b (map real_of_int r)" and "integral (map real_of_int r)"
proof -
  from acc have mv: "mat_vec A r = b" and nn: "\<forall>v \<in> set r. 0 \<le> v"
    by (auto simp: accepts_def list_all_iff)
  have "(\<Sum>j < length r. real_of_int (A ! i ! j) * map real_of_int r ! j) = real_of_int (b ! i)"
    if i: "i < length b" for i
  proof -
    have "b ! i = (\<Sum>j < length r. A ! i ! j * r ! j)"
      using mat_vec_nth [of i A r] A i mv by simp
    then have "real_of_int (b ! i) = (\<Sum>j < length r. real_of_int (A ! i ! j) * real_of_int (r ! j))"
      by simp
    then show ?thesis by simp
  qed
  then show "lp_feasible A b (map real_of_int r)"
    using nn by (simp add: lp_feasible_def)
  show "integral (map real_of_int r)" by (simp add: integral_def)
qed

lemma feasible_accepts:
  assumes f: "lp_feasible A b (map real_of_int r)"
    and A: "length A = length b" "\<forall>i < length A. length (A ! i) = length r"
  shows "accepts A b r"
proof -
  have "mat_vec A r = b"
  proof (rule nth_equalityI)
    show "length (mat_vec A r) = length b" using A by (simp add: mat_vec_def)
  next
    fix i assume "i < length (mat_vec A r)"
    then have i: "i < length b" using A by (simp add: mat_vec_def)
    from f i have "(\<Sum>j < length r. real_of_int (A ! i ! j) * real_of_int (r ! j)) = real_of_int (b ! i)"
      by (simp add: lp_feasible_def)
    then have "real_of_int (\<Sum>j < length r. A ! i ! j * r ! j) = real_of_int (b ! i)" by simp
    then have "(\<Sum>j < length r. A ! i ! j * r ! j) = b ! i" by linarith
    then show "mat_vec A r ! i = b ! i"
      using mat_vec_nth [of i A r] A i by simp
  qed
  moreover have "\<forall>v \<in> set r. 0 \<le> v"
    using f by (auto simp: lp_feasible_def in_set_conv_nth)
  ultimately show ?thesis by (simp add: accepts_def list_all_iff)
qed

lemma scaling_exists:
  fixes x r :: "real list"
  assumes "\<forall>j < k. 0 \<le> x ! j \<and> (x ! j = 0 \<longrightarrow> r ! j \<le> 0)"
  shows "\<exists>t > 0. \<forall>j < k. t * r ! j \<le> x ! j"
  using assms
proof (induction k)
  case 0
  show ?case by (intro exI [of _ 1]) simp
next
  case (Suc k)
  then obtain t where t: "t > 0" "\<forall>j < k. t * r ! j \<le> x ! j" by auto
  from Suc.prems have xk: "0 \<le> x ! k" "x ! k = 0 \<longrightarrow> r ! k \<le> 0" by auto
  show ?case
  proof (cases "r ! k \<le> 0")
    case True
    then have "t * r ! k \<le> 0" using t(1) by (simp add: mult_le_0_iff)
    with xk t show ?thesis by (intro exI [of _ t]) (auto simp: less_Suc_eq)
  next
    case False
    then have rk: "0 < r ! k" by simp
    with xk have xpos: "0 < x ! k" by (cases "x ! k = 0") auto
    define t' where "t' = min t (x ! k / r ! k)"
    have t'pos: "0 < t'" using t(1) xpos rk by (simp add: t'_def)
    have le: "t' \<le> t" "t' \<le> x ! k / r ! k" by (simp_all add: t'_def)
    have "t' * r ! j \<le> x ! j" if j: "j < Suc k" for j
    proof (cases "j = k")
      case True
      from le(2) rk have "t' * r ! k \<le> x ! k" by (simp add: pos_le_divide_eq)
      with True show ?thesis by simp
    next
      case False
      with j have jk: "j < k" by simp
      show ?thesis
      proof (cases "0 \<le> r ! j")
        case True
        then have "t' * r ! j \<le> t * r ! j" using le(1) by (simp add: mult_right_mono)
        with t(2) jk show ?thesis by force
      next
        case F: False
        then have "t' * r ! j \<le> 0" using t'pos by (simp add: mult_le_0_iff)
        moreover from Suc.prems jk have "0 \<le> x ! j" by simp
        ultimately show ?thesis by simp
      qed
    qed
    with t'pos show ?thesis by blast
  qed
qed

lemma lp_optimum_below_candidate:
  fixes x r :: "real list"
  assumes xf: "length x = length c" "lp_feasible A b x"
    and opt: "\<forall>y. length y = length c \<and> lp_feasible A b y \<longrightarrow> objective c x \<le> objective c y"
    and rf: "length r = length c" "lp_feasible A b r"
    and zero: "\<forall>j < length c. x ! j = 0 \<longrightarrow> r ! j = 0"
  shows "objective c r = objective c x"
proof -
  let ?m = "length c"
  from xf have xn: "\<forall>j < ?m. 0 \<le> x ! j" by (simp add: lp_feasible_def)
  from rf have rn: "\<forall>j < ?m. 0 \<le> r ! j" by (simp add: lp_feasible_def)
  have "\<forall>j < ?m. 0 \<le> x ! j \<and> (x ! j = 0 \<longrightarrow> r ! j \<le> 0)" using xn zero by auto
  from scaling_exists [OF this] obtain t where t: "t > 0" "\<forall>j < ?m. t * r ! j \<le> x ! j" by blast
  define y where "y = map (\<lambda>j. (1 + t) * x ! j - t * r ! j) [0..<?m]"
  have ly: "length y = ?m" by (simp add: y_def)
  have yn: "y ! j = (1 + t) * x ! j - t * r ! j" if "j < ?m" for j using that by (simp add: y_def)
  have ypos: "0 \<le> y ! j" if j: "j < ?m" for j
  proof -
    have "0 \<le> t * x ! j" using t(1) xn j by simp
    moreover have "t * r ! j \<le> x ! j" using t(2) j by simp
    ultimately show ?thesis unfolding yn [OF j] by (simp add: algebra_simps)
  qed
  have lin: "(\<Sum>j < ?m. a j * y ! j) = (1 + t) * (\<Sum>j < ?m. a j * x ! j) - t * (\<Sum>j < ?m. a j * r ! j)"
    for a :: "nat \<Rightarrow> real"
  proof -
    have "(\<Sum>j < ?m. a j * y ! j) = (\<Sum>j < ?m. (1 + t) * (a j * x ! j) - t * (a j * r ! j))"
      by (rule sum.cong) (simp_all add: yn algebra_simps)
    also have "\<dots> = (1 + t) * (\<Sum>j < ?m. a j * x ! j) - t * (\<Sum>j < ?m. a j * r ! j)"
      by (simp add: sum_subtractf sum_distrib_left)
    finally show ?thesis .
  qed
  have yf: "lp_feasible A b y"
    unfolding lp_feasible_def
  proof (intro conjI allI impI)
    fix j assume "j < length y"
    then show "0 \<le> y ! j" using ypos ly by simp
  next
    fix i assume i: "i < length b"
    from xf i have ex: "(\<Sum>j < ?m. real_of_int (A ! i ! j) * x ! j) = real_of_int (b ! i)"
      by (simp add: lp_feasible_def)
    from rf i have er: "(\<Sum>j < ?m. real_of_int (A ! i ! j) * r ! j) = real_of_int (b ! i)"
      by (simp add: lp_feasible_def)
    show "(\<Sum>j < length y. real_of_int (A ! i ! j) * y ! j) = real_of_int (b ! i)"
      unfolding ly lin ex er by (simp add: algebra_simps)
  qed
  have "objective c y = (1 + t) * objective c x - t * objective c r"
    unfolding objective_def by (rule lin)
  moreover from opt ly yf have "objective c x \<le> objective c y" by simp
  ultimately have "t * objective c r \<le> t * objective c x" by (simp add: algebra_simps)
  with t(1) have "objective c r \<le> objective c x" by simp
  moreover from opt rf have "objective c x \<le> objective c r" by simp
  ultimately show ?thesis by simp
qed

lemma ilp_minimum_unique: "ilp_minimum m A b R \<Longrightarrow> ilp_minimum m A b R' \<Longrightarrow> R = R'"
  unfolding ilp_minimum_def by (metis of_int_le_iff order_antisym)

lemma ilp_minimum_feasible: "ilp_minimum m A b R \<Longrightarrow> ilp_feasible m A b"
  unfolding ilp_minimum_def ilp_feasible_def by blast

lemma integral_sum_list:
  assumes "integral y"
  shows "sum_list y \<in> \<int>"
proof -
  have "sum_list y = (\<Sum>j < length y. y ! j)" by (simp add: sum_list_sum_nth atLeast0LessThan)
  moreover have "(\<Sum>j < length y. y ! j) \<in> \<int>"
    using assms by (intro Ints_sum) (simp add: integral_def)
  ultimately show ?thesis by simp
qed

lemma py_int_integer: "v \<in> \<int> \<Longrightarrow> real_of_int (py_int v) = v"
  by (auto simp: py_int_def elim!: Ints_cases)

lemma np_round_zero: "np_round 0 = 0"
  by (simp add: np_round_def)

lemma sum_list_of_int: "sum_list (map real_of_int r) = real_of_int (sum_list r)"
  by (induction r) simp_all

lemma candidate_minimum:
  assumes lp: "length x = m" "lp_feasible A b x"
      "\<forall>y. length y = m \<and> lp_feasible A b y \<longrightarrow> objective (replicate m 1) x \<le> objective (replicate m 1) y"
    and shape: "length A = length b" "\<forall>i < length A. length (A ! i) = m"
    and f0: "f 0 = 0"
    and acc: "accepts A b (map f x)"
  shows "ilp_minimum m A b (sum_list (map f x))"
proof -
  let ?r = "map f x"
  let ?c = "replicate m (1::real)"
  have sh: "\<forall>i < length A. length (A ! i) = length ?r" using shape lp by simp
  note rf = accepts_feasible [OF acc shape(1) sh]
  have lr: "length (map real_of_int ?r) = length ?c" using lp by simp
  have z: "\<forall>j < length ?c. x ! j = 0 \<longrightarrow> map real_of_int ?r ! j = 0"
    using lp f0 by simp
  have lx: "length x = length ?c" using lp by simp
  have opt: "\<forall>y. length y = length ?c \<and> lp_feasible A b y \<longrightarrow> objective ?c x \<le> objective ?c y"
    using lp(3) by simp
  from lp_optimum_below_candidate [OF lx lp(2) opt lr rf(1) z]
  have eq: "objective ?c (map real_of_int ?r) = objective ?c x" .
  have "objective ?c (map real_of_int ?r) = sum_list (map real_of_int ?r)"
    by (rule objective_ones) (simp add: lp)
  then have os: "objective ?c (map real_of_int ?r) = real_of_int (sum_list ?r)"
    by (simp only: sum_list_of_int)
  have "real_of_int (sum_list ?r) \<le> sum_list y" if "length y = m" "lp_feasible A b y" for y
  proof -
    from lp(3) that have "objective ?c x \<le> objective ?c y" by simp
    with eq os that show ?thesis by (simp add: objective_ones)
  qed
  moreover have "sum_list (map real_of_int ?r) = real_of_int (sum_list ?r)"
    by (rule sum_list_of_int)
  ultimately show ?thesis
    unfolding ilp_minimum_def using rf lp by (intro conjI exI [of _ "map real_of_int ?r"]) auto
qed

lemma milp_answer_minimum:
  assumes "milp_contract (replicate m 1) A b (Some y)"
  shows "ilp_minimum m A b (py_int (sum_list y))"
proof -
  from assms have y: "length y = m" "lp_feasible A b y" "integral y"
    and opt: "\<forall>z. length z = m \<and> lp_feasible A b z \<and> integral z \<longrightarrow>
                objective (replicate m 1) y \<le> objective (replicate m 1) z"
    by (simp_all add: milp_contract_def)
  have R: "real_of_int (py_int (sum_list y)) = sum_list y"
    by (rule py_int_integer [OF integral_sum_list [OF y(3)]])
  have "real_of_int (py_int (sum_list y)) \<le> sum_list z"
    if "length z = m" "lp_feasible A b z" "integral z" for z
    using opt that y(1) R by (simp add: objective_ones)
  with y R show ?thesis unfolding ilp_minimum_def by auto
qed

lemma solve_joltage_value:
  assumes wf: "indices_in_range (length target) buttons"
    and snd: "solvers_sound linprog milp target buttons"
  shows "\<exists>A. joltage_matrix (length target) buttons = Inr A \<and>
           (if ilp_feasible (length buttons) A target
            then \<exists>R. ilp_minimum (length buttons) A target R \<and>
                   solve_joltage linprog milp target buttons = Inr (PyInt R) \<and>
                   solve_joltage_without_rounding linprog milp target buttons = Inr (PyInt R)
            else solve_joltage linprog milp target buttons = Inr PyInf \<and>
                 solve_joltage_without_rounding linprog milp target buttons = Inr PyInf)"
proof -
  let ?m = "length buttons"
  let ?c = "replicate ?m (1::real)"
  from joltage_matrix_result [OF wf] obtain A where
    A: "joltage_matrix (length target) buttons = Inr A"
    and lA: "length A = length target"
    and rows: "\<forall>i < length A. length (A ! i) = ?m" by auto
  from snd A have lpc: "linprog_contract ?c A target (linprog ?c A target)"
    and mc: "milp_contract ?c A target (milp ?c A target)"
    by (simp_all add: solvers_sound_def)
  show ?thesis
  proof (cases "linprog ?c A target")
    case None
    with lpc have "\<not> ilp_feasible ?m A target"
      by (auto simp: linprog_contract_def ilp_feasible_def)
    moreover have "solve_joltage linprog milp target buttons = Inr PyInf"
      "solve_joltage_without_rounding linprog milp target buttons = Inr PyInf"
      using A None by (simp_all add: solve_joltage_def solve_joltage_without_rounding_def)
    ultimately show ?thesis using A by simp
  next
    case (Some x)
    with lpc have x: "length x = ?m" "lp_feasible A target x"
      and opt: "\<forall>y. length y = ?m \<and> lp_feasible A target y \<longrightarrow> objective ?c x \<le> objective ?c y"
      by (simp_all add: linprog_contract_def)
    have cand: "ilp_minimum ?m A target (sum_list (map f x))"
      if "f 0 = 0" "accepts A target (map f x)" for f :: "real \<Rightarrow> int"
      by (rule candidate_minimum [OF x opt lA rows that])
    have wo: "solve_joltage_without_rounding linprog milp target buttons =
        (case milp ?c A target of Some y \<Rightarrow> Inr (PyInt (py_int (sum_list y))) | None \<Rightarrow> Inr PyInf)"
      using A Some by (simp add: solve_joltage_without_rounding_def)
    have sj: "solve_joltage linprog milp target buttons =
        (if accepts A target (map np_round x) then Inr (PyInt (sum_list (map np_round x)))
         else if accepts A target (map ceiling x) then Inr (PyInt (sum_list (map ceiling x)))
         else if accepts A target (map floor x) then Inr (PyInt (sum_list (map floor x)))
         else (case milp ?c A target of Some y \<Rightarrow> Inr (PyInt (py_int (sum_list y))) | None \<Rightarrow> Inr PyInf))"
      using A Some x(1) by (simp add: solve_joltage_def Let_def)
    show ?thesis
    proof (cases "ilp_feasible ?m A target")
      case True
      with mc obtain y where y: "milp ?c A target = Some y"
        by (cases "milp ?c A target") (auto simp: milp_contract_def ilp_feasible_def)
      with mc have R0: "ilp_minimum ?m A target (py_int (sum_list y))"
        by (simp add: milp_answer_minimum)
      have same: "R = py_int (sum_list y)" if "ilp_minimum ?m A target R" for R
        by (rule ilp_minimum_unique [OF that R0])
      have "solve_joltage linprog milp target buttons = Inr (PyInt (py_int (sum_list y)))"
        unfolding sj using y same [OF cand [of np_round]] same [OF cand [of ceiling]]
          same [OF cand [of floor]] by (simp add: np_round_zero)
      moreover have "solve_joltage_without_rounding linprog milp target buttons
          = Inr (PyInt (py_int (sum_list y)))"
        unfolding wo using y by simp
      ultimately show ?thesis using A True R0 by auto
    next
      case False
      with mc have n: "milp ?c A target = None"
        by (cases "milp ?c A target") (auto simp: milp_contract_def ilp_feasible_def)
      have no: "\<not> accepts A target (map f x)" if "f 0 = 0" for f :: "real \<Rightarrow> int"
        using cand [of f, OF that] False ilp_minimum_feasible by blast
      have "solve_joltage linprog milp target buttons = Inr PyInf"
        unfolding sj using n no [of np_round] no [of ceiling] no [of floor]
        by (simp add: np_round_zero)
      moreover have "solve_joltage_without_rounding linprog milp target buttons = Inr PyInf"
        unfolding wo using n by simp
      ultimately show ?thesis using A False by simp
    qed
  qed
qed

section \<open>Helpers for the claims about the increment model\<close>


lemma py_add_inf [simp]: "py_add a PyInf = PyInf"
  by (cases a) simp_all



lemma lp_feasible_rows:
  assumes "length b \<le> length A" "\<forall>i < length b. length (A ! i) = length x"
  shows "lp_feasible A b x \<longleftrightarrow>
           list_all (\<lambda>v. 0 \<le> v) x \<and>
           map (\<lambda>row. \<Sum>(a, v) \<leftarrow> zip row x. real_of_int a * v) (take (length b) A) = map real_of_int b"
proof -
  have s: "(\<Sum>(a, v) \<leftarrow> zip (A ! i) x. real_of_int a * v) = (\<Sum>j < length x. real_of_int (A ! i ! j) * x ! j)"
    if "i < length b" for i
  proof -
    have "(\<Sum>(a, v) \<leftarrow> zip (A ! i) x. real_of_int a * v) =
          (\<Sum>(a, v) \<leftarrow> zip (map real_of_int (A ! i)) x. a * v)"
      by (simp add: zip_map1 case_prod_unfold comp_def)
    also have "\<dots> = (\<Sum>j < length x. map real_of_int (A ! i) ! j * x ! j)"
      using assms(2) that by (intro sum_list_zip_nth) simp
    also have "\<dots> = (\<Sum>j < length x. real_of_int (A ! i ! j) * x ! j)"
      using assms(2) that by (intro sum.cong) simp_all
    finally show ?thesis .
  qed
  have "map (\<lambda>row. \<Sum>(a, v) \<leftarrow> zip row x. real_of_int a * v) (take (length b) A) = map real_of_int b
        \<longleftrightarrow> (\<forall>i < length b. (\<Sum>j < length x. real_of_int (A ! i ! j) * x ! j) = real_of_int (b ! i))"
    using assms(1) s by (auto simp: list_eq_iff_nth_eq)
  moreover have "list_all (\<lambda>v. 0 \<le> v) x \<longleftrightarrow> (\<forall>j < length x. 0 \<le> x ! j)"
    by (rule list_all_length)
  ultimately show ?thesis unfolding lp_feasible_def by simp
qed

lemma list2: "length y = 2 \<Longrightarrow> \<exists>a b. y = [a, b]"
  by (auto simp: length_Suc_conv numeral_2_eq_2)

lemma twin_program:
  "lp_feasible [[1, 1]] [1] [a, b] \<longleftrightarrow> 0 \<le> a \<and> 0 \<le> b \<and> a + b = 1"
  by (subst lp_feasible_rows) auto

lemma twin_matrix: "joltage_matrix 1 [[0], [0]] = Inr [[1, 1]]"
  by (simp add: joltage_matrix_def)

lemma objective_pair: "objective [1, 1] [a, b] = a + b"
  by (simp add: objective_def lessThan_Suc numeral_2_eq_2)

lemma linprog_contract_Some:
  assumes "length x = length c" "lp_feasible A b x"
    and "\<And>y. length y = length c \<Longrightarrow> lp_feasible A b y \<Longrightarrow> objective c x \<le> objective c y"
  shows "linprog_contract c A b (Some x)"
  using assms by (simp add: linprog_contract_def)

lemma milp_contract_Some:
  assumes "length x = length c" "lp_feasible A b x" "integral x"
    and "\<And>y. length y = length c \<Longrightarrow> lp_feasible A b y \<Longrightarrow> objective c x \<le> objective c y"
  shows "milp_contract c A b (Some x)"
  using assms by (simp add: milp_contract_def)


lemma solvers_soundI:
  assumes "joltage_matrix (length target) buttons = Inr A"
    and "linprog_contract (replicate (length buttons) 1) A target
           (linprog (replicate (length buttons) 1) A target)"
    and "milp_contract (replicate (length buttons) 1) A target
           (milp (replicate (length buttons) 1) A target)"
  shows "solvers_sound linprog milp target buttons"
  using assms by (simp add: solvers_sound_def)

lemma twin_bound:
  assumes "length y = length [1, 1 :: real]" "lp_feasible [[1, 1]] [1] y"
  shows "objective [1, 1] y = 1"
proof -
  from assms(1) obtain a b where y: "y = [a, b]" using list2 [of y] by auto
  with assms(2) show ?thesis by (simp add: twin_program objective_pair)
qed

lemma twin_sound_vertex: "solvers_sound (\<lambda>c A b. Some [1, 0]) (\<lambda>c A b. Some [1, 0]) [1] [[0], [0]]"
proof (rule solvers_soundI)
  show "joltage_matrix (length [1 :: int]) [[0], [0]] = Inr [[1, 1]]"
    by (simp add: joltage_matrix_def)
  have f: "lp_feasible [[1, 1]] [1] [1, 0]" by (simp add: twin_program)
  have c: "replicate (length [[0], [0 :: nat]]) (1 :: real) = [1, 1]" by simp
  show "linprog_contract (replicate (length [[0], [0 :: nat]]) 1) [[1, 1]] [1] (Some [1, 0])"
    unfolding c by (rule linprog_contract_Some) (simp_all add: f twin_bound objective_pair)
  show "milp_contract (replicate (length [[0], [0 :: nat]]) 1) [[1, 1]] [1] (Some [1, 0])"
    unfolding c by (rule milp_contract_Some) (simp_all add: f twin_bound objective_pair integral_def less_Suc_eq)
qed

lemma twin_sound_split:
  "solvers_sound (\<lambda>c A b. Some [1 / 2, 1 / 2]) (\<lambda>c A b. Some [0, 1]) [1] [[0], [0]]"
proof (rule solvers_soundI)
  show "joltage_matrix (length [1 :: int]) [[0], [0]] = Inr [[1, 1]]"
    by (simp add: joltage_matrix_def)
  have f: "lp_feasible [[1, 1]] [1] [1 / 2, 1 / 2]" "lp_feasible [[1, 1]] [1] [0, 1]"
    by (simp_all add: twin_program)
  have c: "replicate (length [[0], [0 :: nat]]) (1 :: real) = [1, 1]" by simp
  show "linprog_contract (replicate (length [[0], [0 :: nat]]) 1) [[1, 1]] [1] (Some [1 / 2, 1 / 2])"
    unfolding c by (rule linprog_contract_Some) (simp_all add: f twin_bound objective_pair)
  show "milp_contract (replicate (length [[0], [0 :: nat]]) 1) [[1, 1]] [1] (Some [0, 1])"
    unfolding c by (rule milp_contract_Some) (simp_all add: f twin_bound objective_pair integral_def less_Suc_eq)
qed

lemma list1: "length y = Suc 0 \<Longrightarrow> \<exists>a. y = [a]"
  by (auto simp: length_Suc_conv)

lemma one_button_program: "lp_feasible [[1]] [2] [a] \<longleftrightarrow> a = 2"
  by (subst lp_feasible_rows) auto





subsection \<open>The integer program of \<^verbatim>\<open>solve_machine_minpresses\<close>\<close>

lemma py_int_sum_list:
  assumes "integral v"
  shows "sum_list (map py_int v) = py_int (sum_list v)"
proof -
  have each: "real_of_int (py_int x) = x" if "x \<in> set v" for x
  proof -
    from that obtain j where "j < length v" "x = v ! j" by (auto simp: in_set_conv_nth)
    with assms have "x \<in> \<int>" by (simp add: integral_def)
    then show ?thesis by (rule py_int_integer)
  qed
  have "map real_of_int (map py_int v) = v"
    unfolding map_map by (rule map_idI) (simp add: each)
  then have "real_of_int (sum_list (map py_int v)) = sum_list v"
    using sum_list_of_int [of "map py_int v"] by simp
  moreover have "real_of_int (py_int (sum_list v)) = sum_list v"
    by (rule py_int_integer [OF integral_sum_list [OF assms]])
  ultimately have "real_of_int (sum_list (map py_int v)) = real_of_int (py_int (sum_list v))"
    by simp
  then show ?thesis by (simp only: of_int_eq_iff)
qed

lemma solve_machine_minpresses_call:
  assumes "A \<noteq> []" "\<forall>row \<in> set A. length row = length (hd A)" "length (hd A) \<le> length target"
  shows "solve_machine_minpresses cbc target A =
      (case cbc (replicate (length A) 1) (constraint_rows A) (constraint_rhs target A) of
         None \<Rightarrow> Inl ValueError | Some v \<Rightarrow> Inr (sum_list (map py_int v)))"
proof -
  from assms(2) have "\<not> (\<exists>row \<in> set A. length row < length (hd A))" by fastforce
  moreover from assms(3) have "\<not> length target < length (hd A)" by simp
  ultimately show ?thesis using assms(1) unfolding solve_machine_minpresses_def by simp
qed

lemma solve_machine_minpresses_value:
  assumes ne: "A \<noteq> []"
    and shape: "\<forall>row \<in> set A. length row = length (hd A)" "length (hd A) \<le> length target"
    and snd: "cbc_sound cbc target A"
  shows "if ilp_feasible (length A) (constraint_rows A) (constraint_rhs target A)
         then \<exists>R. ilp_minimum (length A) (constraint_rows A) (constraint_rhs target A) R \<and>
                solve_machine_minpresses cbc target A = Inr R
         else solve_machine_minpresses cbc target A = Inl ValueError"
proof (cases "cbc (replicate (length A) 1) (constraint_rows A) (constraint_rhs target A)")
  case None
  with snd have "milp_contract (replicate (length A) 1) (constraint_rows A) (constraint_rhs target A) None"
    by (simp add: cbc_sound_def)
  then have nf: "\<not> ilp_feasible (length A) (constraint_rows A) (constraint_rhs target A)"
    by (simp add: milp_contract_def ilp_feasible_def)
  have "solve_machine_minpresses cbc target A = Inl ValueError"
    by (simp add: solve_machine_minpresses_call [OF ne shape] None)
  with nf show ?thesis by simp
next
  case (Some v)
  with snd have mv: "milp_contract (replicate (length A) 1) (constraint_rows A) (constraint_rhs target A) (Some v)"
    by (simp add: cbc_sound_def)
  then have v: "integral v" by (simp add: milp_contract_def)
  have R: "ilp_minimum (length A) (constraint_rows A) (constraint_rhs target A) (py_int (sum_list v))"
    by (rule milp_answer_minimum [OF mv])
  have f: "ilp_feasible (length A) (constraint_rows A) (constraint_rhs target A)"
    by (rule ilp_minimum_feasible [OF R])
  have "solve_machine_minpresses cbc target A = Inr (py_int (sum_list v))"
    by (simp add: solve_machine_minpresses_call [OF ne shape] Some py_int_sum_list [OF v])
  with R f show ?thesis by auto
qed



subsection \<open>The all-zero target\<close>














subsection \<open>The three example machines\<close>

lemma solve_joltage_minimum:
  assumes "indices_in_range (length target) buttons"
    and "solvers_sound linprog milp target buttons"
    and "joltage_matrix (length target) buttons = Inr A"
    and "ilp_minimum (length buttons) A target R"
  shows "solve_joltage linprog milp target buttons = Inr (PyInt R)"
proof -
  from solve_joltage_value [OF assms(1,2)] assms(3) ilp_minimum_feasible [OF assms(4)]
  obtain R' where R': "ilp_minimum (length buttons) A target R'"
    and v: "solve_joltage linprog milp target buttons = Inr (PyInt R')" by auto
  from ilp_minimum_unique [OF R' assms(4)] v show ?thesis by simp
qed

lemma solve_machine_minpresses_minimum:
  assumes "A \<noteq> []" "\<forall>row \<in> set A. length row = length (hd A)" "length (hd A) \<le> length target"
    and "cbc_sound cbc target A"
    and "ilp_minimum (length A) (constraint_rows A) (constraint_rhs target A) R"
  shows "solve_machine_minpresses cbc target A = Inr R"
proof -
  from solve_machine_minpresses_value [OF assms(1-4)] ilp_minimum_feasible [OF assms(5)]
  obtain R' where R': "ilp_minimum (length A) (constraint_rows A) (constraint_rhs target A) R'"
    and v: "solve_machine_minpresses cbc target A = Inr R'" by auto
  from ilp_minimum_unique [OF R' assms(5)] v show ?thesis by simp
qed

lemma optimum_contracts:
  assumes "length x = m" "lp_feasible A b x" "integral x"
    and "\<And>y. length y = m \<Longrightarrow> lp_feasible A b y \<Longrightarrow> sum_list x \<le> sum_list y"
  shows "linprog_contract (replicate m 1) A b (Some x)"
    and "milp_contract (replicate m 1) A b (Some x)"
proof -
  have o: "objective (replicate m 1) x \<le> objective (replicate m 1) y"
    if "length y = length (replicate m (1::real))" "lp_feasible A b y" for y
  proof -
    from that(1) have l: "length y = m" by simp
    from assms(4) [OF l that(2)] objective_ones [OF l] objective_ones [OF assms(1)]
    show ?thesis by simp
  qed
  show "linprog_contract (replicate m 1) A b (Some x)"
    by (rule linprog_contract_Some) (simp_all add: assms(1,2) o)
  show "milp_contract (replicate m 1) A b (Some x)"
    by (rule milp_contract_Some) (simp_all add: assms(1,2,3) o)
qed

lemma optimum_minimum:
  assumes "length x = m" "lp_feasible A b x" "integral x" "sum_list x = real_of_int R"
    and "\<And>y. length y = m \<Longrightarrow> lp_feasible A b y \<Longrightarrow> sum_list x \<le> sum_list y"
  shows "ilp_minimum m A b R"
proof -
  from assms(1-4) have "\<exists>x. length x = m \<and> lp_feasible A b x \<and> integral x \<and>
      sum_list x = real_of_int R" by blast
  moreover have "real_of_int R \<le> sum_list y" if "length y = m" "lp_feasible A b y" for y
    using assms(5) [OF that] assms(4) by simp
  ultimately show ?thesis unfolding ilp_minimum_def by blast
qed

lemma list4: "length y = 4 \<Longrightarrow> \<exists>a b c d. y = [a, b, c, d]"
  by (auto simp: length_Suc_conv eval_nat_numeral)

lemma list5: "length y = 5 \<Longrightarrow> \<exists>a b c d e. y = [a, b, c, d, e]"
  by (auto simp: length_Suc_conv eval_nat_numeral)

lemma list6: "length y = 6 \<Longrightarrow> \<exists>a b c d e f. y = [a, b, c, d, e, f]"
  by (auto simp: length_Suc_conv eval_nat_numeral)

lemma integral_of_ints: "integral (map real_of_int r)"
  by (simp add: integral_def)

lemma example1_program:
  "lp_feasible [[0, 0, 0, 0, 1, 1], [0, 1, 0, 0, 0, 1], [0, 0, 1, 1, 1, 0], [1, 1, 0, 1, 0, 0]]
     [3, 5, 4, 7] [a, b, c, d, e, f] \<longleftrightarrow>
   0 \<le> a \<and> 0 \<le> b \<and> 0 \<le> c \<and> 0 \<le> d \<and> 0 \<le> e \<and> 0 \<le> f \<and>
   e + f = 3 \<and> b + f = 5 \<and> c + d + e = 4 \<and> a + b + d = 7"
  by (subst lp_feasible_rows) (auto simp: less_Suc_eq)

lemma example2_program:
  "lp_feasible [[1, 0, 1, 1, 0], [0, 0, 0, 1, 1], [1, 1, 0, 1, 1], [1, 1, 0, 0, 1], [1, 0, 1, 0, 1]]
     [7, 5, 12, 7, 2] [a, b, c, d, e] \<longleftrightarrow>
   0 \<le> a \<and> 0 \<le> b \<and> 0 \<le> c \<and> 0 \<le> d \<and> 0 \<le> e \<and>
   a + c + d = 7 \<and> d + e = 5 \<and> a + b + d + e = 12 \<and> a + b + e = 7 \<and> a + c + e = 2"
  by (subst lp_feasible_rows) (auto simp: less_Suc_eq)

lemma example3_program:
  "lp_feasible [[1, 1, 1, 0], [1, 0, 1, 1], [1, 0, 1, 1], [1, 1, 0, 0], [1, 1, 1, 0], [0, 0, 1, 0]]
     [10, 11, 11, 5, 10, 5] [a, b, c, d] \<longleftrightarrow>
   0 \<le> a \<and> 0 \<le> b \<and> 0 \<le> c \<and> 0 \<le> d \<and>
   a + b + c = 10 \<and> a + c + d = 11 \<and> a + b = 5 \<and> c = 5"
  by (subst lp_feasible_rows) (auto simp: less_Suc_eq)

lemma example1_bound:
  assumes "length y = 6"
    and "lp_feasible [[0, 0, 0, 0, 1, 1], [0, 1, 0, 0, 0, 1], [0, 0, 1, 1, 1, 0], [1, 1, 0, 1, 0, 0]]
           [3, 5, 4, 7] y"
  shows "10 \<le> sum_list y"
proof -
  from list6 [OF assms(1)] obtain a b c d e f where y: "y = [a, b, c, d, e, f]" by blast
  from assms(2) have "0 \<le> a \<and> 0 \<le> b \<and> 0 \<le> c \<and> 0 \<le> d \<and> 0 \<le> e \<and> 0 \<le> f \<and>
      e + f = 3 \<and> b + f = 5 \<and> c + d + e = 4 \<and> a + b + d = 7"
    unfolding y example1_program .
  then have "10 \<le> a + b + c + d + e + f" by linarith
  then show ?thesis unfolding y by simp
qed

lemma example2_bound:
  assumes "length y = 5"
    and "lp_feasible [[1, 0, 1, 1, 0], [0, 0, 0, 1, 1], [1, 1, 0, 1, 1], [1, 1, 0, 0, 1], [1, 0, 1, 0, 1]]
           [7, 5, 12, 7, 2] y"
  shows "12 \<le> sum_list y"
proof -
  from list5 [OF assms(1)] obtain a b c d e where y: "y = [a, b, c, d, e]" by blast
  from assms(2) have "0 \<le> a \<and> 0 \<le> b \<and> 0 \<le> c \<and> 0 \<le> d \<and> 0 \<le> e \<and>
      a + c + d = 7 \<and> d + e = 5 \<and> a + b + d + e = 12 \<and> a + b + e = 7 \<and> a + c + e = 2"
    unfolding y example2_program .
  then have "12 \<le> a + b + c + d + e" by linarith
  then show ?thesis unfolding y by simp
qed

lemma example3_bound:
  assumes "length y = 4"
    and "lp_feasible [[1, 1, 1, 0], [1, 0, 1, 1], [1, 0, 1, 1], [1, 1, 0, 0], [1, 1, 1, 0], [0, 0, 1, 0]]
           [10, 11, 11, 5, 10, 5] y"
  shows "11 \<le> sum_list y"
proof -
  from list4 [OF assms(1)] obtain a b c d where y: "y = [a, b, c, d]" by blast
  from assms(2) have "0 \<le> a \<and> 0 \<le> b \<and> 0 \<le> c \<and> 0 \<le> d \<and>
      a + b + c = 10 \<and> a + c + d = 11 \<and> a + b = 5 \<and> c = 5"
    unfolding y example3_program .
  then have "11 \<le> a + b + c + d" by linarith
  then show ?thesis unfolding y by simp
qed

lemma example1_answer:
  "length [1, 3, 0, 3, 1, 2 :: real] = 6"
  "lp_feasible [[0, 0, 0, 0, 1, 1], [0, 1, 0, 0, 0, 1], [0, 0, 1, 1, 1, 0], [1, 1, 0, 1, 0, 0]]
     [3, 5, 4, 7] [1, 3, 0, 3, 1, 2]"
  "integral [1, 3, 0, 3, 1, 2]"
  "sum_list [1, 3, 0, 3, 1, 2 :: real] = real_of_int 10"
proof -
  show "length [1, 3, 0, 3, 1, 2 :: real] = 6" by simp
  show "lp_feasible [[0, 0, 0, 0, 1, 1], [0, 1, 0, 0, 0, 1], [0, 0, 1, 1, 1, 0], [1, 1, 0, 1, 0, 0]]
     [3, 5, 4, 7] [1, 3, 0, 3, 1, 2]" unfolding example1_program by simp
  have "integral (map real_of_int [1, 3, 0, 3, 1, 2])" by (rule integral_of_ints)
  then show "integral [1, 3, 0, 3, 1, 2]" by simp
  show "sum_list [1, 3, 0, 3, 1, 2 :: real] = real_of_int 10" by simp
qed

lemma example2_answer:
  "length [2, 5, 0, 5, 0 :: real] = 5"
  "lp_feasible [[1, 0, 1, 1, 0], [0, 0, 0, 1, 1], [1, 1, 0, 1, 1], [1, 1, 0, 0, 1], [1, 0, 1, 0, 1]]
     [7, 5, 12, 7, 2] [2, 5, 0, 5, 0]"
  "integral [2, 5, 0, 5, 0]"
  "sum_list [2, 5, 0, 5, 0 :: real] = real_of_int 12"
proof -
  show "length [2, 5, 0, 5, 0 :: real] = 5" by simp
  show "lp_feasible [[1, 0, 1, 1, 0], [0, 0, 0, 1, 1], [1, 1, 0, 1, 1], [1, 1, 0, 0, 1], [1, 0, 1, 0, 1]]
     [7, 5, 12, 7, 2] [2, 5, 0, 5, 0]" unfolding example2_program by simp
  have "integral (map real_of_int [2, 5, 0, 5, 0])" by (rule integral_of_ints)
  then show "integral [2, 5, 0, 5, 0]" by simp
  show "sum_list [2, 5, 0, 5, 0 :: real] = real_of_int 12" by simp
qed

lemma example3_answer:
  "length [5, 0, 5, 1 :: real] = 4"
  "lp_feasible [[1, 1, 1, 0], [1, 0, 1, 1], [1, 0, 1, 1], [1, 1, 0, 0], [1, 1, 1, 0], [0, 0, 1, 0]]
     [10, 11, 11, 5, 10, 5] [5, 0, 5, 1]"
  "integral [5, 0, 5, 1]"
  "sum_list [5, 0, 5, 1 :: real] = real_of_int 11"
proof -
  show "length [5, 0, 5, 1 :: real] = 4" by simp
  show "lp_feasible [[1, 1, 1, 0], [1, 0, 1, 1], [1, 0, 1, 1], [1, 1, 0, 0], [1, 1, 1, 0], [0, 0, 1, 0]]
     [10, 11, 11, 5, 10, 5] [5, 0, 5, 1]" unfolding example3_program by simp
  have "integral (map real_of_int [5, 0, 5, 1])" by (rule integral_of_ints)
  then show "integral [5, 0, 5, 1]" by simp
  show "sum_list [5, 0, 5, 1 :: real] = real_of_int 11" by simp
qed

lemma example1_minimum:
  "ilp_minimum 6 [[0, 0, 0, 0, 1, 1], [0, 1, 0, 0, 0, 1], [0, 0, 1, 1, 1, 0], [1, 1, 0, 1, 0, 0]]
     [3, 5, 4, 7] 10"
proof (rule optimum_minimum [OF example1_answer])
  fix y :: "real list"
  assume "length y = 6"
    "lp_feasible [[0, 0, 0, 0, 1, 1], [0, 1, 0, 0, 0, 1], [0, 0, 1, 1, 1, 0], [1, 1, 0, 1, 0, 0]]
       [3, 5, 4, 7] y"
  from example1_bound [OF this] show "sum_list [1, 3, 0, 3, 1, 2] \<le> sum_list y" by simp
qed

lemma example2_minimum:
  "ilp_minimum 5 [[1, 0, 1, 1, 0], [0, 0, 0, 1, 1], [1, 1, 0, 1, 1], [1, 1, 0, 0, 1], [1, 0, 1, 0, 1]]
     [7, 5, 12, 7, 2] 12"
proof (rule optimum_minimum [OF example2_answer])
  fix y :: "real list"
  assume "length y = 5"
    "lp_feasible [[1, 0, 1, 1, 0], [0, 0, 0, 1, 1], [1, 1, 0, 1, 1], [1, 1, 0, 0, 1], [1, 0, 1, 0, 1]]
       [7, 5, 12, 7, 2] y"
  from example2_bound [OF this] show "sum_list [2, 5, 0, 5, 0] \<le> sum_list y" by simp
qed

lemma example3_minimum:
  "ilp_minimum 4 [[1, 1, 1, 0], [1, 0, 1, 1], [1, 0, 1, 1], [1, 1, 0, 0], [1, 1, 1, 0], [0, 0, 1, 0]]
     [10, 11, 11, 5, 10, 5] 11"
proof (rule optimum_minimum [OF example3_answer])
  fix y :: "real list"
  assume "length y = 4"
    "lp_feasible [[1, 1, 1, 0], [1, 0, 1, 1], [1, 0, 1, 1], [1, 1, 0, 0], [1, 1, 1, 0], [0, 0, 1, 0]]
       [10, 11, 11, 5, 10, 5] y"
  from example3_bound [OF this] show "sum_list [5, 0, 5, 1] \<le> sum_list y" by simp
qed

lemma example1_contracts:
  "linprog_contract (replicate 6 1)
     [[0, 0, 0, 0, 1, 1], [0, 1, 0, 0, 0, 1], [0, 0, 1, 1, 1, 0], [1, 1, 0, 1, 0, 0]] [3, 5, 4, 7]
     (answer_example c A [3, 5, 4, 7])"
  "milp_contract (replicate 6 1)
     [[0, 0, 0, 0, 1, 1], [0, 1, 0, 0, 0, 1], [0, 0, 1, 1, 1, 0], [1, 1, 0, 1, 0, 0]] [3, 5, 4, 7]
     (answer_example c A [3, 5, 4, 7])"
proof -
  have a: "answer_example c A [3, 5, 4, 7] = Some [1, 3, 0, 3, 1, 2]"
    by (simp add: answer_example_def)
  have b: "sum_list [1, 3, 0, 3, 1, 2] \<le> sum_list y"
    if "length y = 6"
      "lp_feasible [[0, 0, 0, 0, 1, 1], [0, 1, 0, 0, 0, 1], [0, 0, 1, 1, 1, 0], [1, 1, 0, 1, 0, 0]]
         [3, 5, 4, 7] y" for y :: "real list"
    using example1_bound [OF that] by simp
  show "linprog_contract (replicate 6 1)
     [[0, 0, 0, 0, 1, 1], [0, 1, 0, 0, 0, 1], [0, 0, 1, 1, 1, 0], [1, 1, 0, 1, 0, 0]] [3, 5, 4, 7]
     (answer_example c A [3, 5, 4, 7])"
    unfolding a by (rule optimum_contracts(1) [OF example1_answer(1-3) b])
  show "milp_contract (replicate 6 1)
     [[0, 0, 0, 0, 1, 1], [0, 1, 0, 0, 0, 1], [0, 0, 1, 1, 1, 0], [1, 1, 0, 1, 0, 0]] [3, 5, 4, 7]
     (answer_example c A [3, 5, 4, 7])"
    unfolding a by (rule optimum_contracts(2) [OF example1_answer(1-3) b])
qed

lemma example2_contracts:
  "linprog_contract (replicate 5 1)
     [[1, 0, 1, 1, 0], [0, 0, 0, 1, 1], [1, 1, 0, 1, 1], [1, 1, 0, 0, 1], [1, 0, 1, 0, 1]]
     [7, 5, 12, 7, 2] (answer_example c A [7, 5, 12, 7, 2])"
  "milp_contract (replicate 5 1)
     [[1, 0, 1, 1, 0], [0, 0, 0, 1, 1], [1, 1, 0, 1, 1], [1, 1, 0, 0, 1], [1, 0, 1, 0, 1]]
     [7, 5, 12, 7, 2] (answer_example c A [7, 5, 12, 7, 2])"
proof -
  have a: "answer_example c A [7, 5, 12, 7, 2] = Some [2, 5, 0, 5, 0]"
    by (simp add: answer_example_def)
  have b: "sum_list [2, 5, 0, 5, 0] \<le> sum_list y"
    if "length y = 5"
      "lp_feasible [[1, 0, 1, 1, 0], [0, 0, 0, 1, 1], [1, 1, 0, 1, 1], [1, 1, 0, 0, 1], [1, 0, 1, 0, 1]]
         [7, 5, 12, 7, 2] y" for y :: "real list"
    using example2_bound [OF that] by simp
  show "linprog_contract (replicate 5 1)
     [[1, 0, 1, 1, 0], [0, 0, 0, 1, 1], [1, 1, 0, 1, 1], [1, 1, 0, 0, 1], [1, 0, 1, 0, 1]]
     [7, 5, 12, 7, 2] (answer_example c A [7, 5, 12, 7, 2])"
    unfolding a by (rule optimum_contracts(1) [OF example2_answer(1-3) b])
  show "milp_contract (replicate 5 1)
     [[1, 0, 1, 1, 0], [0, 0, 0, 1, 1], [1, 1, 0, 1, 1], [1, 1, 0, 0, 1], [1, 0, 1, 0, 1]]
     [7, 5, 12, 7, 2] (answer_example c A [7, 5, 12, 7, 2])"
    unfolding a by (rule optimum_contracts(2) [OF example2_answer(1-3) b])
qed

lemma example3_contracts:
  "linprog_contract (replicate 4 1)
     [[1, 1, 1, 0], [1, 0, 1, 1], [1, 0, 1, 1], [1, 1, 0, 0], [1, 1, 1, 0], [0, 0, 1, 0]]
     [10, 11, 11, 5, 10, 5] (answer_example c A [10, 11, 11, 5, 10, 5])"
  "milp_contract (replicate 4 1)
     [[1, 1, 1, 0], [1, 0, 1, 1], [1, 0, 1, 1], [1, 1, 0, 0], [1, 1, 1, 0], [0, 0, 1, 0]]
     [10, 11, 11, 5, 10, 5] (answer_example c A [10, 11, 11, 5, 10, 5])"
proof -
  have a: "answer_example c A [10, 11, 11, 5, 10, 5] = Some [5, 0, 5, 1]"
    by (simp add: answer_example_def)
  have b: "sum_list [5, 0, 5, 1] \<le> sum_list y"
    if "length y = 4"
      "lp_feasible [[1, 1, 1, 0], [1, 0, 1, 1], [1, 0, 1, 1], [1, 1, 0, 0], [1, 1, 1, 0], [0, 0, 1, 0]]
         [10, 11, 11, 5, 10, 5] y" for y :: "real list"
    using example3_bound [OF that] by simp
  show "linprog_contract (replicate 4 1)
     [[1, 1, 1, 0], [1, 0, 1, 1], [1, 0, 1, 1], [1, 1, 0, 0], [1, 1, 1, 0], [0, 0, 1, 0]]
     [10, 11, 11, 5, 10, 5] (answer_example c A [10, 11, 11, 5, 10, 5])"
    unfolding a by (rule optimum_contracts(1) [OF example3_answer(1-3) b])
  show "milp_contract (replicate 4 1)
     [[1, 1, 1, 0], [1, 0, 1, 1], [1, 0, 1, 1], [1, 1, 0, 0], [1, 1, 1, 0], [0, 0, 1, 0]]
     [10, 11, 11, 5, 10, 5] (answer_example c A [10, 11, 11, 5, 10, 5])"
    unfolding a by (rule optimum_contracts(2) [OF example3_answer(1-3) b])
qed

lemma example_matrices:
  "joltage_matrix (length [3, 5, 4, 7 :: int]) [[3], [1, 3], [2], [2, 3], [0, 2], [0, 1]] =
     Inr [[0, 0, 0, 0, 1, 1], [0, 1, 0, 0, 0, 1], [0, 0, 1, 1, 1, 0], [1, 1, 0, 1, 0, 0]]"
  "joltage_matrix (length [7, 5, 12, 7, 2 :: int])
     [[0, 2, 3, 4], [2, 3], [0, 4], [0, 1, 2], [1, 2, 3, 4]] =
     Inr [[1, 0, 1, 1, 0], [0, 0, 0, 1, 1], [1, 1, 0, 1, 1], [1, 1, 0, 0, 1], [1, 0, 1, 0, 1]]"
  "joltage_matrix (length [10, 11, 11, 5, 10, 5 :: int])
     [[0, 1, 2, 3, 4], [0, 3, 4], [0, 1, 2, 4, 5], [1, 2]] =
     Inr [[1, 1, 1, 0], [1, 0, 1, 1], [1, 0, 1, 1], [1, 1, 0, 0], [1, 1, 1, 0], [0, 0, 1, 0]]"
  by code_simp+

lemma example_in_range:
  "indices_in_range (length [3, 5, 4, 7 :: int]) [[3], [1, 3], [2], [2, 3], [0, 2], [0, 1]]"
  "indices_in_range (length [7, 5, 12, 7, 2 :: int])
     [[0, 2, 3, 4], [2, 3], [0, 4], [0, 1, 2], [1, 2, 3, 4]]"
  "indices_in_range (length [10, 11, 11, 5, 10, 5 :: int])
     [[0, 1, 2, 3, 4], [0, 3, 4], [0, 1, 2, 4, 5], [1, 2]]"
  by code_simp+

lemma example_rows:
  "parse_line_part2 [3, 5, 4, 7] [[3], [1, 3], [2], [2, 3], [0, 2], [0, 1]] =
     Inr ([3, 5, 4, 7],
          [[0, 0, 0, 1], [0, 1, 0, 1], [0, 0, 1, 0], [0, 0, 1, 1], [1, 0, 1, 0], [1, 1, 0, 0]])"
  "parse_line_part2 [7, 5, 12, 7, 2] [[0, 2, 3, 4], [2, 3], [0, 4], [0, 1, 2], [1, 2, 3, 4]] =
     Inr ([7, 5, 12, 7, 2],
          [[1, 0, 1, 1, 1], [0, 0, 1, 1, 0], [1, 0, 0, 0, 1], [1, 1, 1, 0, 0], [0, 1, 1, 1, 1]])"
  "parse_line_part2 [10, 11, 11, 5, 10, 5] [[0, 1, 2, 3, 4], [0, 3, 4], [0, 1, 2, 4, 5], [1, 2]] =
     Inr ([10, 11, 11, 5, 10, 5],
          [[1, 1, 1, 1, 1, 0], [1, 0, 0, 1, 1, 0], [1, 1, 1, 0, 1, 1], [0, 1, 1, 0, 0, 0]])"
  by code_simp+

lemma example_constraints:
  "constraint_rows [[0, 0, 0, 1], [0, 1, 0, 1], [0, 0, 1, 0], [0, 0, 1, 1], [1, 0, 1, 0], [1, 1, 0, 0]] =
     [[0, 0, 0, 0, 1, 1], [0, 1, 0, 0, 0, 1], [0, 0, 1, 1, 1, 0], [1, 1, 0, 1, 0, 0]]"
  "constraint_rhs [3, 5, 4, 7]
     [[0, 0, 0, 1], [0, 1, 0, 1], [0, 0, 1, 0], [0, 0, 1, 1], [1, 0, 1, 0], [1, 1, 0, 0]] =
     [3, 5, 4, 7]"
  "constraint_rows [[1, 0, 1, 1, 1], [0, 0, 1, 1, 0], [1, 0, 0, 0, 1], [1, 1, 1, 0, 0], [0, 1, 1, 1, 1]] =
     [[1, 0, 1, 1, 0], [0, 0, 0, 1, 1], [1, 1, 0, 1, 1], [1, 1, 0, 0, 1], [1, 0, 1, 0, 1]]"
  "constraint_rhs [7, 5, 12, 7, 2]
     [[1, 0, 1, 1, 1], [0, 0, 1, 1, 0], [1, 0, 0, 0, 1], [1, 1, 1, 0, 0], [0, 1, 1, 1, 1]] =
     [7, 5, 12, 7, 2]"
  "constraint_rows [[1, 1, 1, 1, 1, 0], [1, 0, 0, 1, 1, 0], [1, 1, 1, 0, 1, 1], [0, 1, 1, 0, 0, 0]] =
     [[1, 1, 1, 0], [1, 0, 1, 1], [1, 0, 1, 1], [1, 1, 0, 0], [1, 1, 1, 0], [0, 0, 1, 0]]"
  "constraint_rhs [10, 11, 11, 5, 10, 5]
     [[1, 1, 1, 1, 1, 0], [1, 0, 0, 1, 1, 0], [1, 1, 1, 0, 1, 1], [0, 1, 1, 0, 0, 0]] =
     [10, 11, 11, 5, 10, 5]"
  by code_simp+

lemma example_lengths:
  "length [[3], [1, 3], [2], [2, 3], [0, 2], [0, 1 :: nat]] = 6"
  "length [[0, 2, 3, 4], [2, 3], [0, 4], [0, 1, 2], [1, 2, 3, 4 :: nat]] = 5"
  "length [[0, 1, 2, 3, 4], [0, 3, 4], [0, 1, 2, 4, 5], [1, 2 :: nat]] = 4"
  "length [[0, 0, 0, 1], [0, 1, 0, 1], [0, 0, 1, 0], [0, 0, 1, 1], [1, 0, 1, 0], [1, 1, 0, 0 :: int]] = 6"
  "length [[1, 0, 1, 1, 1], [0, 0, 1, 1, 0], [1, 0, 0, 0, 1], [1, 1, 1, 0, 0], [0, 1, 1, 1, 1 :: int]] = 5"
  "length [[1, 1, 1, 1, 1, 0], [1, 0, 0, 1, 1, 0], [1, 1, 1, 0, 1, 1], [0, 1, 1, 0, 0, 0 :: int]] = 4"
  by simp_all

lemma example_joltage_values:
  assumes "solvers_sound linprog milp [3, 5, 4, 7] [[3], [1, 3], [2], [2, 3], [0, 2], [0, 1]]"
    and "solvers_sound linprog milp [7, 5, 12, 7, 2]
           [[0, 2, 3, 4], [2, 3], [0, 4], [0, 1, 2], [1, 2, 3, 4]]"
    and "solvers_sound linprog milp [10, 11, 11, 5, 10, 5]
           [[0, 1, 2, 3, 4], [0, 3, 4], [0, 1, 2, 4, 5], [1, 2]]"
  shows "solve_joltage linprog milp [3, 5, 4, 7] [[3], [1, 3], [2], [2, 3], [0, 2], [0, 1]] =
           Inr (PyInt 10)"
    and "solve_joltage linprog milp [7, 5, 12, 7, 2]
           [[0, 2, 3, 4], [2, 3], [0, 4], [0, 1, 2], [1, 2, 3, 4]] = Inr (PyInt 12)"
    and "solve_joltage linprog milp [10, 11, 11, 5, 10, 5]
           [[0, 1, 2, 3, 4], [0, 3, 4], [0, 1, 2, 4, 5], [1, 2]] = Inr (PyInt 11)"
proof -
  show "solve_joltage linprog milp [3, 5, 4, 7] [[3], [1, 3], [2], [2, 3], [0, 2], [0, 1]] =
           Inr (PyInt 10)"
    by (rule solve_joltage_minimum [OF example_in_range(1) assms(1) example_matrices(1)])
       (unfold example_lengths, rule example1_minimum)
  show "solve_joltage linprog milp [7, 5, 12, 7, 2]
           [[0, 2, 3, 4], [2, 3], [0, 4], [0, 1, 2], [1, 2, 3, 4]] = Inr (PyInt 12)"
    by (rule solve_joltage_minimum [OF example_in_range(2) assms(2) example_matrices(2)])
       (unfold example_lengths, rule example2_minimum)
  show "solve_joltage linprog milp [10, 11, 11, 5, 10, 5]
           [[0, 1, 2, 3, 4], [0, 3, 4], [0, 1, 2, 4, 5], [1, 2]] = Inr (PyInt 11)"
    by (rule solve_joltage_minimum [OF example_in_range(3) assms(3) example_matrices(3)])
       (unfold example_lengths, rule example3_minimum)
qed

lemma example_minpresses_values:
  assumes "cbc_sound cbc [3, 5, 4, 7]
             [[0, 0, 0, 1], [0, 1, 0, 1], [0, 0, 1, 0], [0, 0, 1, 1], [1, 0, 1, 0], [1, 1, 0, 0]]"
    and "cbc_sound cbc [7, 5, 12, 7, 2]
           [[1, 0, 1, 1, 1], [0, 0, 1, 1, 0], [1, 0, 0, 0, 1], [1, 1, 1, 0, 0], [0, 1, 1, 1, 1]]"
    and "cbc_sound cbc [10, 11, 11, 5, 10, 5]
           [[1, 1, 1, 1, 1, 0], [1, 0, 0, 1, 1, 0], [1, 1, 1, 0, 1, 1], [0, 1, 1, 0, 0, 0]]"
  shows "solve_machine_minpresses cbc [3, 5, 4, 7]
           [[0, 0, 0, 1], [0, 1, 0, 1], [0, 0, 1, 0], [0, 0, 1, 1], [1, 0, 1, 0], [1, 1, 0, 0]] = Inr 10"
    and "solve_machine_minpresses cbc [7, 5, 12, 7, 2]
           [[1, 0, 1, 1, 1], [0, 0, 1, 1, 0], [1, 0, 0, 0, 1], [1, 1, 1, 0, 0], [0, 1, 1, 1, 1]] = Inr 12"
    and "solve_machine_minpresses cbc [10, 11, 11, 5, 10, 5]
           [[1, 1, 1, 1, 1, 0], [1, 0, 0, 1, 1, 0], [1, 1, 1, 0, 1, 1], [0, 1, 1, 0, 0, 0]] = Inr 11"
proof -
  show "solve_machine_minpresses cbc [3, 5, 4, 7]
           [[0, 0, 0, 1], [0, 1, 0, 1], [0, 0, 1, 0], [0, 0, 1, 1], [1, 0, 1, 0], [1, 1, 0, 0]] = Inr 10"
  proof (rule solve_machine_minpresses_minimum [OF _ _ _ assms(1)])
    show "ilp_minimum
        (length [[0, 0, 0, 1], [0, 1, 0, 1], [0, 0, 1, 0], [0, 0, 1, 1], [1, 0, 1, 0], [1, 1, 0, 0 :: int]])
        (constraint_rows [[0, 0, 0, 1], [0, 1, 0, 1], [0, 0, 1, 0], [0, 0, 1, 1], [1, 0, 1, 0], [1, 1, 0, 0]])
        (constraint_rhs [3, 5, 4, 7]
           [[0, 0, 0, 1], [0, 1, 0, 1], [0, 0, 1, 0], [0, 0, 1, 1], [1, 0, 1, 0], [1, 1, 0, 0]]) 10"
      unfolding example_lengths example_constraints by (rule example1_minimum)
  qed simp_all
  show "solve_machine_minpresses cbc [7, 5, 12, 7, 2]
           [[1, 0, 1, 1, 1], [0, 0, 1, 1, 0], [1, 0, 0, 0, 1], [1, 1, 1, 0, 0], [0, 1, 1, 1, 1]] = Inr 12"
  proof (rule solve_machine_minpresses_minimum [OF _ _ _ assms(2)])
    show "ilp_minimum
        (length [[1, 0, 1, 1, 1], [0, 0, 1, 1, 0], [1, 0, 0, 0, 1], [1, 1, 1, 0, 0], [0, 1, 1, 1, 1 :: int]])
        (constraint_rows [[1, 0, 1, 1, 1], [0, 0, 1, 1, 0], [1, 0, 0, 0, 1], [1, 1, 1, 0, 0], [0, 1, 1, 1, 1]])
        (constraint_rhs [7, 5, 12, 7, 2]
           [[1, 0, 1, 1, 1], [0, 0, 1, 1, 0], [1, 0, 0, 0, 1], [1, 1, 1, 0, 0], [0, 1, 1, 1, 1]]) 12"
      unfolding example_lengths example_constraints by (rule example2_minimum)
  qed simp_all
  show "solve_machine_minpresses cbc [10, 11, 11, 5, 10, 5]
           [[1, 1, 1, 1, 1, 0], [1, 0, 0, 1, 1, 0], [1, 1, 1, 0, 1, 1], [0, 1, 1, 0, 0, 0]] = Inr 11"
  proof (rule solve_machine_minpresses_minimum [OF _ _ _ assms(3)])
    show "ilp_minimum
        (length [[1, 1, 1, 1, 1, 0], [1, 0, 0, 1, 1, 0], [1, 1, 1, 0, 1, 1], [0, 1, 1, 0, 0, 0 :: int]])
        (constraint_rows [[1, 1, 1, 1, 1, 0], [1, 0, 0, 1, 1, 0], [1, 1, 1, 0, 1, 1], [0, 1, 1, 0, 0, 0]])
        (constraint_rhs [10, 11, 11, 5, 10, 5]
           [[1, 1, 1, 1, 1, 0], [1, 0, 0, 1, 1, 0], [1, 1, 1, 0, 1, 1], [0, 1, 1, 0, 0, 0]]) 11"
      unfolding example_lengths example_constraints by (rule example3_minimum)
  qed simp_all
qed

lemma answer_example_sound:
  "solvers_sound answer_example answer_example [3, 5, 4, 7]
     [[3], [1, 3], [2], [2, 3], [0, 2], [0, 1]]"
  "solvers_sound answer_example answer_example [7, 5, 12, 7, 2]
     [[0, 2, 3, 4], [2, 3], [0, 4], [0, 1, 2], [1, 2, 3, 4]]"
  "solvers_sound answer_example answer_example [10, 11, 11, 5, 10, 5]
     [[0, 1, 2, 3, 4], [0, 3, 4], [0, 1, 2, 4, 5], [1, 2]]"
proof -
  show "solvers_sound answer_example answer_example [3, 5, 4, 7]
     [[3], [1, 3], [2], [2, 3], [0, 2], [0, 1]]"
    by (rule solvers_soundI [OF example_matrices(1)])
       (simp_all only: example_lengths example1_contracts)
  show "solvers_sound answer_example answer_example [7, 5, 12, 7, 2]
     [[0, 2, 3, 4], [2, 3], [0, 4], [0, 1, 2], [1, 2, 3, 4]]"
    by (rule solvers_soundI [OF example_matrices(2)])
       (simp_all only: example_lengths example2_contracts)
  show "solvers_sound answer_example answer_example [10, 11, 11, 5, 10, 5]
     [[0, 1, 2, 3, 4], [0, 3, 4], [0, 1, 2, 4, 5], [1, 2]]"
    by (rule solvers_soundI [OF example_matrices(3)])
       (simp_all only: example_lengths example3_contracts)
qed

lemma answer_example_cbc_sound:
  "cbc_sound answer_example [3, 5, 4, 7]
     [[0, 0, 0, 1], [0, 1, 0, 1], [0, 0, 1, 0], [0, 0, 1, 1], [1, 0, 1, 0], [1, 1, 0, 0]]"
  "cbc_sound answer_example [7, 5, 12, 7, 2]
     [[1, 0, 1, 1, 1], [0, 0, 1, 1, 0], [1, 0, 0, 0, 1], [1, 1, 1, 0, 0], [0, 1, 1, 1, 1]]"
  "cbc_sound answer_example [10, 11, 11, 5, 10, 5]
     [[1, 1, 1, 1, 1, 0], [1, 0, 0, 1, 1, 0], [1, 1, 1, 0, 1, 1], [0, 1, 1, 0, 0, 0]]"
  unfolding cbc_sound_def example_lengths example_constraints
  by (rule example1_contracts example2_contracts example3_contracts)+

subsection \<open>The machine with the single button (0,0)\<close>

lemma twice_reaches: "reaches_counts [2] [[0, 0]] x \<longleftrightarrow> x = [1]"
proof
  assume r: "reaches_counts [2] [[0, 0]] x"
  then have "length x = Suc 0" by (simp add: reaches_counts_def)
  then obtain a where x: "x = [a]" using list1 [of x] by blast
  from r have "int (increments_of [[0, 0]] [a] 0) = 2"
    unfolding x reaches_counts_def by simp
  then have "a = 1" by (simp add: increments_of_def)
  with x show "x = [1]" by simp
next
  assume "x = [1]"
  then show "reaches_counts [2] [[0, 0]] x"
    by (simp add: reaches_counts_def increments_of_def)
qed

lemma twice_minimum: "min_press_sum [2] [[0, 0]] 1"
  unfolding min_press_sum_def twice_reaches by simp

lemma twice_matrix: "joltage_matrix (length [2 :: int]) [[0, 0]] = Inr [[1]]"
  by (simp add: joltage_matrix_def)

lemma one_button_minimum: "ilp_minimum 1 [[1]] [2] 2"
proof (rule optimum_minimum [where x = "[2]"])
  show "integral [2]" using integral_of_ints [of "[2]"] by simp
  fix y :: "real list"
  assume "length y = 1" "lp_feasible [[1]] [2] y"
  then obtain a where "y = [a]" "lp_feasible [[1]] [2] [a]" using list1 [of y] by auto
  then show "sum_list [2] \<le> sum_list y" by (simp add: one_button_program)
qed (simp_all add: one_button_program)

lemma double_button_program: "lp_feasible [[2]] [2] [a] \<longleftrightarrow> a = 1"
  by (subst lp_feasible_rows) auto

lemma double_button_bound:
  assumes "length y = 1" "lp_feasible [[2]] [2] y"
  shows "sum_list [1] \<le> sum_list y"
proof -
  from assms obtain a where "y = [a]" "lp_feasible [[2]] [2] [a]" using list1 [of y] by auto
  then show ?thesis by (simp add: double_button_program)
qed

lemma double_button_answer:
  "length [1 :: real] = 1" "lp_feasible [[2]] [2] [1]" "integral [1]"
  "sum_list [1 :: real] = real_of_int 1"
proof -
  show "integral [1]" using integral_of_ints [of "[1]"] by simp
qed (simp_all add: double_button_program)

lemma double_button_minimum: "ilp_minimum 1 [[2]] [2] 1"
  by (rule optimum_minimum [OF double_button_answer double_button_bound])

lemma double_button_constraints:
  "constraint_rows [[2]] = [[2]]" "constraint_rhs [2] [[2]] = [2]" "length [[2 :: int]] = 1"
  by (simp_all add: constraint_rows_def constraint_rhs_def)

lemma answer_one_cbc_sound: "cbc_sound answer_one [2] [[2]]"
proof -
  have a: "answer_one c A [2] = Some [1]" for c A by (simp add: answer_one_def)
  show ?thesis unfolding cbc_sound_def double_button_constraints a
    by (rule optimum_contracts(2) [OF double_button_answer(1-3) double_button_bound])
qed

lemma answer_two_sound_twice: "solvers_sound answer_two answer_two [2] [[0, 0]]"
proof (rule solvers_soundI [OF twice_matrix])
  have a: "answer_two c A [2] = Some [2]" for c A by (simp add: answer_two_def)
  have l: "length [[0, 0 :: nat]] = 1" by simp
  have x: "length [2 :: real] = 1" "lp_feasible [[1]] [2] [2]" "integral [2]"
    using integral_of_ints [of "[2]"] by (simp_all add: one_button_program)
  have b: "sum_list [2] \<le> sum_list y" if "length y = 1" "lp_feasible [[1]] [2] y" for y
  proof -
    from that obtain a where "y = [a]" "lp_feasible [[1]] [2] [a]" using list1 [of y] by auto
    then show ?thesis by (simp add: one_button_program)
  qed
  show "linprog_contract (replicate (length [[0, 0 :: nat]]) 1) [[1]] [2]
          (answer_two (replicate (length [[0, 0 :: nat]]) 1) [[1]] [2])"
    unfolding a l by (rule optimum_contracts(1) [OF x b])
  show "milp_contract (replicate (length [[0, 0 :: nat]]) 1) [[1]] [2]
          (answer_two (replicate (length [[0, 0 :: nat]]) 1) [[1]] [2])"
    unfolding a l by (rule optimum_contracts(2) [OF x b])
qed

subsection \<open>Press vectors and the integer programs\<close>

text \<open>
  Where the matrix counts the occurrences of an index in a button, the feasible integral
  points of the program are the press vectors that reach the counters, so the minimum of
  the program is the least number of presses. \<^verbatim>\<open>solve_machine_minpresses\<close> returns it
  on every feasible machine with one button at least, and \<^verbatim>\<open>solve_joltage\<close> on every
  feasible machine none of whose buttons lists an index twice.
\<close>

lemma sum_list_of_nat: "sum_list (map real y) = real (sum_list y)"
  by (induction y) simp_all

lemma increments_of_sum:
  "real (increments_of buttons y i) =
     (\<Sum>j < length buttons. real (count_list (buttons ! j) i) * real (y ! j))"
proof -
  have "increments_of buttons y i = (\<Sum>j \<in> {..<length buttons}. y ! j * count_list (buttons ! j) i)"
    unfolding increments_of_def
    by (simp add: interv_sum_list_conv_sum_set_nat atLeast0LessThan)
  then show ?thesis by (simp add: mult.commute)
qed

lemma counts_feasible:
  assumes rows: "\<forall>i < length target. \<forall>j < length buttons.
                   rows ! i ! j = int (count_list (buttons ! j) i)"
    and len: "length x = length buttons"
  shows "lp_feasible rows target x \<longleftrightarrow>
           (\<forall>j < length buttons. 0 \<le> x ! j) \<and>
           (\<forall>i < length target.
              (\<Sum>j < length buttons. real (count_list (buttons ! j) i) * x ! j) =
                real_of_int (target ! i))"
proof -
  have "(\<Sum>j < length buttons. real_of_int (rows ! i ! j) * x ! j) =
        (\<Sum>j < length buttons. real (count_list (buttons ! j) i) * x ! j)"
    if "i < length target" for i
    by (rule sum.cong) (simp_all add: rows that)
  then show ?thesis unfolding lp_feasible_def len by simp
qed

lemma presses_feasible:
  assumes rows: "\<forall>i < length target. \<forall>j < length buttons.
                   rows ! i ! j = int (count_list (buttons ! j) i)"
    and r: "reaches_counts target buttons y"
  shows "length (map real y) = length buttons" "lp_feasible rows target (map real y)"
    "integral (map real y)" "sum_list (map real y) = real (sum_list y)"
proof -
  from r have len: "length y = length buttons"
    and eq: "\<forall>i < length target. int (increments_of buttons y i) = target ! i"
    by (simp_all add: reaches_counts_def)
  show l: "length (map real y) = length buttons" using len by simp
  have "(\<Sum>j < length buttons. real (count_list (buttons ! j) i) * map real y ! j) =
        real_of_int (target ! i)" if i: "i < length target" for i
  proof -
    have "(\<Sum>j < length buttons. real (count_list (buttons ! j) i) * map real y ! j) =
          (\<Sum>j < length buttons. real (count_list (buttons ! j) i) * real (y ! j))"
      by (rule sum.cong) (simp_all add: len)
    also have "\<dots> = real (increments_of buttons y i)" by (rule increments_of_sum [symmetric])
    also have "\<dots> = real_of_int (int (increments_of buttons y i))" by simp
    also have "\<dots> = real_of_int (target ! i)" using eq i by simp
    finally show ?thesis .
  qed
  moreover have "\<forall>j < length buttons. 0 \<le> map real y ! j" by (simp add: len)
  ultimately show "lp_feasible rows target (map real y)"
    unfolding counts_feasible [OF rows l] by blast
  show "integral (map real y)" by (simp add: integral_def)
  show "sum_list (map real y) = real (sum_list y)" by (rule sum_list_of_nat)
qed

lemma feasible_presses:
  assumes rows: "\<forall>i < length target. \<forall>j < length buttons.
                   rows ! i ! j = int (count_list (buttons ! j) i)"
    and len: "length x = length buttons"
    and f: "lp_feasible rows target x" and int: "integral x"
  shows "\<exists>y. reaches_counts target buttons y \<and> real (sum_list y) = sum_list x"
proof -
  let ?y = "map (\<lambda>v. nat \<lfloor>v\<rfloor>) x"
  from f have nn: "\<forall>j < length buttons. 0 \<le> x ! j"
    and eq: "\<forall>i < length target.
              (\<Sum>j < length buttons. real (count_list (buttons ! j) i) * x ! j) =
                real_of_int (target ! i)"
    unfolding counts_feasible [OF rows len] by blast+
  have fl: "real (nat \<lfloor>x ! j\<rfloor>) = x ! j" if j: "j < length buttons" for j
  proof -
    from int j len have "x ! j \<in> \<int>" by (simp add: integral_def)
    then obtain k where k: "x ! j = real_of_int k" by (auto elim: Ints_cases)
    from nn j have "0 \<le> x ! j" by blast
    with k have "0 \<le> k" by simp
    with k show ?thesis by simp
  qed
  have each: "real (?y ! j) = x ! j" if j: "j < length buttons" for j
    using fl [OF j] j len by simp
  have rt: "map real ?y = x"
    by (rule nth_equalityI) (simp_all add: fl len)
  have "int (increments_of buttons ?y i) = target ! i" if i: "i < length target" for i
  proof -
    have "real (increments_of buttons ?y i) =
        (\<Sum>j < length buttons. real (count_list (buttons ! j) i) * real (?y ! j))"
      by (rule increments_of_sum)
    also have "\<dots> = (\<Sum>j < length buttons. real (count_list (buttons ! j) i) * x ! j)"
      by (rule sum.cong) (simp_all add: each)
    also have "\<dots> = real_of_int (target ! i)" using eq i by simp
    finally have "real_of_int (int (increments_of buttons ?y i)) = real_of_int (target ! i)"
      by simp
    then show ?thesis by (simp only: of_int_eq_iff)
  qed
  then have r: "reaches_counts target buttons ?y" by (simp add: reaches_counts_def len)
  have "real (sum_list ?y) = sum_list (map real ?y)" by (rule sum_list_of_nat [symmetric])
  with rt have "real (sum_list ?y) = sum_list x" by simp
  with r show ?thesis by blast
qed

lemma min_press_sum_exists:
  assumes "counter_feasible target buttons"
  shows "\<exists>R. min_press_sum target buttons R"
proof -
  let ?P = "\<lambda>r. \<exists>y. reaches_counts target buttons y \<and> sum_list y = r"
  from assms have ex: "\<exists>r. ?P r" unfolding counter_feasible_def by blast
  from LeastI_ex [OF ex] have a: "?P (Least ?P)" .
  have "Least ?P \<le> sum_list y" if "reaches_counts target buttons y" for y
    by (rule Least_le) (use that in blast)
  with a show ?thesis unfolding min_press_sum_def by blast
qed

lemma min_press_sum_program:
  assumes rows: "\<forall>i < length target. \<forall>j < length buttons.
                   rows ! i ! j = int (count_list (buttons ! j) i)"
    and m: "min_press_sum target buttons R"
  shows "ilp_minimum (length buttons) rows target (int R)"
proof -
  from m obtain y where y: "reaches_counts target buttons y" "sum_list y = R"
    and least: "\<forall>y'. reaches_counts target buttons y' \<longrightarrow> R \<le> sum_list y'"
    unfolding min_press_sum_def by blast
  from presses_feasible [OF rows y(1)] y(2)
  have "length (map real y) = length buttons \<and> lp_feasible rows target (map real y) \<and>
        integral (map real y) \<and> sum_list (map real y) = real_of_int (int R)" by simp
  then have ex: "\<exists>x. length x = length buttons \<and> lp_feasible rows target x \<and> integral x \<and>
      sum_list x = real_of_int (int R)" by blast
  have "real_of_int (int R) \<le> sum_list x"
    if "length x = length buttons" "lp_feasible rows target x" "integral x" for x
  proof -
    from feasible_presses [OF rows that] obtain y' where
      y': "reaches_counts target buttons y'" "real (sum_list y') = sum_list x" by blast
    from least y'(1) have "R \<le> sum_list y'" by blast
    then have "real R \<le> real (sum_list y')" by simp
    with y'(2) show ?thesis by simp
  qed
  with ex show ?thesis unfolding ilp_minimum_def by blast
qed

lemma parse_line_part2_program:
  assumes wf: "indices_in_range (length target) buttons" and ne: "buttons \<noteq> []"
  shows "\<exists>A. parse_line_part2 target buttons = Inr (target, A) \<and>
           A \<noteq> [] \<and> length A = length buttons \<and>
           (\<forall>row \<in> set A. length row = length (hd A)) \<and> length (hd A) \<le> length target \<and>
           constraint_rhs target A = target \<and>
           (\<forall>i < length target. \<forall>j < length buttons.
              constraint_rows A ! i ! j = int (count_list (buttons ! j) i))"
proof -
  from parse_line_part2_counts [OF wf] obtain A where
    p: "parse_line_part2 target buttons = Inr (target, A)"
    and l: "length A = length buttons"
    and rows: "\<forall>j < length buttons. length (A ! j) = length target \<and>
                (\<forall>i < length target. A ! j ! i = int (count_list (buttons ! j) i))" by blast
  from l ne have ne': "A \<noteq> []" by auto
  then have "hd A = A ! 0" by (simp add: hd_conv_nth)
  moreover from ne have "0 < length buttons" by simp
  ultimately have h: "length (hd A) = length target" using rows by simp
  have rect: "\<forall>row \<in> set A. length row = length (hd A)"
  proof
    fix row assume "row \<in> set A"
    then obtain j where "j < length A" "row = A ! j" by (auto simp: in_set_conv_nth)
    with rows l h show "length row = length (hd A)" by simp
  qed
  have rhs: "constraint_rhs target A = target"
    unfolding constraint_rhs_def h by (rule nth_equalityI) simp_all
  have cr: "constraint_rows A ! i ! j = int (count_list (buttons ! j) i)"
    if "i < length target" "j < length buttons" for i j
    using that rows l by (simp add: constraint_rows_def h)
  from p ne' l rect h rhs cr show ?thesis by auto
qed

lemma solve_machine_minpresses_min_press_sum:
  assumes wf: "indices_in_range (length target) buttons" and ne: "buttons \<noteq> []"
    and feas: "counter_feasible target buttons"
  shows "\<exists>A R. parse_line_part2 target buttons = Inr (target, A) \<and>
           min_press_sum target buttons R \<and>
           (\<forall>cbc. cbc_sound cbc target A \<longrightarrow>
              solve_machine_minpresses cbc target A = Inr (int R))"
proof -
  from parse_line_part2_program [OF wf ne] obtain A where
    p: "parse_line_part2 target buttons = Inr (target, A)"
    and ne': "A \<noteq> []" and l: "length A = length buttons"
    and rect: "\<forall>row \<in> set A. length row = length (hd A)"
    and h: "length (hd A) \<le> length target"
    and rhs: "constraint_rhs target A = target"
    and cr: "\<forall>i < length target. \<forall>j < length buttons.
              constraint_rows A ! i ! j = int (count_list (buttons ! j) i)" by blast
  from min_press_sum_exists [OF feas] obtain R where R: "min_press_sum target buttons R" ..
  from min_press_sum_program [OF cr R]
  have m: "ilp_minimum (length A) (constraint_rows A) (constraint_rhs target A) (int R)"
    unfolding l rhs .
  have "solve_machine_minpresses cbc target A = Inr (int R)"
    if "cbc_sound cbc target A" for cbc
    by (rule solve_machine_minpresses_minimum [OF ne' rect h that m])
  with p R show ?thesis by blast
qed

lemma count_list_distinct:
  "distinct xs \<Longrightarrow> count_list xs a = (if a \<in> set xs then 1 else 0)"
  by (induction xs) auto

lemma solve_joltage_min_press_sum:
  assumes wf: "indices_in_range (length target) buttons"
    and dist: "\<forall>button \<in> set buttons. distinct button"
    and feas: "counter_feasible target buttons"
    and snd: "solvers_sound linprog milp target buttons"
  shows "\<exists>R. min_press_sum target buttons R \<and>
             solve_joltage linprog milp target buttons = Inr (PyInt (int R))"
proof -
  from joltage_matrix_result [OF wf] obtain A where
    A: "joltage_matrix (length target) buttons = Inr A"
    and e: "\<forall>i < length target. \<forall>j < length buttons.
              A ! i ! j = (if i \<in> set (buttons ! j) then 1 else 0)" by blast
  have rows: "\<forall>i < length target. \<forall>j < length buttons.
                A ! i ! j = int (count_list (buttons ! j) i)"
  proof (intro allI impI)
    fix i j assume i: "i < length target" and j: "j < length buttons"
    from j dist have "distinct (buttons ! j)" by simp
    from count_list_distinct [OF this, of i] e i j
    show "A ! i ! j = int (count_list (buttons ! j) i)" by simp
  qed
  from min_press_sum_exists [OF feas] obtain R where R: "min_press_sum target buttons R" ..
  from solve_joltage_minimum [OF wf snd A min_press_sum_program [OF rows R]] R
  show ?thesis by blast
qed

section \<open>The claims\<close>

lemma reaches_bits_code [code]:
  "reaches_bits target buttons x \<longleftrightarrow>
     length x = length buttons \<and>
     list_all (\<lambda>i. odd (toggles_of buttons x i) = target ! i) [0..<length target]"
  by (auto simp: reaches_bits_def list_all_iff)

lemma indices_in_range_code [code]:
  "indices_in_range n buttons = list_all (list_all (\<lambda>i. i < n)) buttons"
  by (auto simp: indices_in_range_def list_all_iff)

text \<open>
  C1. On a machine whose toggle system is feasible, the binary solver returns the minimum
  Hamming weight \<open>R\<close>: some press vector with exactly \<open>R\<close> ones reaches the target bits,
  and no press vector that reaches them has fewer ones. The enumeration \<^verbatim>\<open>solve_gf2\<close>
  does so on every such machine. The elimination \<^verbatim>\<open>gf2_solve_minweight\<close>, on the matrix
  that \<^verbatim>\<open>parse_line_part1\<close> builds, does so on every such machine with one button at
  least. Not on every machine: with no button the matrix is the empty list, whose array has
  the shape \<open>(0,)\<close>, and \<^verbatim>\<open>m, n = A.shape\<close> raises ValueError, although the all-zero
  target of two lights is reached by pressing nothing, with weight 0.
\<close>

theorem C1_elimination_raises_without_buttons:
  "indices_in_range 2 [] \<and>
   toggle_feasible [False, False] [] \<and>
   min_hamming_weight [False, False] [] 0 \<and>
   solve_gf2 [False, False] [] = Inr (PyInt 0) \<and>
   parse_line_part1 [False, False] [] = Inr ([False, False], []) \<and>
   gf2_solve_minweight [False, False] [] = Inl ValueError"
proof -
  have r: "reaches_bits [False, False] [] []" by code_simp
  then have f: "toggle_feasible [False, False] []" unfolding toggle_feasible_def by blast
  have m: "min_hamming_weight [False, False] [] 0"
    unfolding min_hamming_weight_def using r by (auto simp: hamming_weight_def)
  have w: "indices_in_range 2 []" by (simp add: indices_in_range_def)
  have s: "solve_gf2 [False, False] [] = Inr (PyInt 0)" by code_simp
  have p: "parse_line_part1 [False, False] [] = Inr ([False, False], [])"
    by (simp add: parse_line_part1_def)
  have g: "gf2_solve_minweight [False, False] [] = Inl ValueError"
    by (simp add: gf2_solve_minweight_def)
  show ?thesis by (intro conjI w f m s p g)
qed

theorem C1_binary_solver_minimum:
  assumes "indices_in_range (length target) buttons" and "toggle_feasible target buttons"
  shows "\<exists>R. min_hamming_weight target buttons R \<and>
             solve_gf2 target buttons = Inr (PyInt (int R)) \<and>
             (buttons \<noteq> [] \<longrightarrow>
                (\<exists>A. parse_line_part1 target buttons = Inr (target, A) \<and>
                     gf2_solve_minweight target A = Inr (PyInt (int R))))"
proof -
  from solve_gf2_feasible [OF assms] obtain R where
    R: "solve_gf2 target buttons = Inr (PyInt (int R))" "min_hamming_weight target buttons R"
    by blast
  have "\<exists>A. parse_line_part1 target buttons = Inr (target, A) \<and>
            gf2_solve_minweight target A = Inr (PyInt (int R))" if "buttons \<noteq> []"
  proof -
    from gf2_machine [OF assms(1) that] assms(2) obtain A R' where
      A: "parse_line_part1 target buttons = Inr (target, A)"
      "gf2_solve_minweight target A = Inr (PyInt (int R'))"
      "min_hamming_weight target buttons R'" by auto
    from min_hamming_weight_unique [OF R(2) A(3)] A show ?thesis by auto
  qed
  with R show ?thesis by blast
qed

theorem C1_binary_solver_minimum_witness:
  "indices_in_range 4 [[3], [1, 3], [2], [2, 3], [0, 2], [0, 1]] \<and>
   toggle_feasible [False, True, True, False] [[3], [1, 3], [2], [2, 3], [0, 2], [0, 1]] \<and>
   min_hamming_weight [False, True, True, False] [[3], [1, 3], [2], [2, 3], [0, 2], [0, 1]] 2 \<and>
   solve_gf2 [False, True, True, False] [[3], [1, 3], [2], [2, 3], [0, 2], [0, 1]] = Inr (PyInt 2) \<and>
   (\<exists>A. parse_line_part1 [False, True, True, False] [[3], [1, 3], [2], [2, 3], [0, 2], [0, 1]]
          = Inr ([False, True, True, False], A) \<and>
        gf2_solve_minweight [False, True, True, False] A = Inr (PyInt 2))"
proof -
  let ?T = "[False, True, True, False]"
  let ?B = "[[3], [1, 3], [2], [2, 3], [0, 2], [0, 1 :: nat]]"
  have wf4: "indices_in_range 4 ?B" by code_simp
  have wf: "indices_in_range (length ?T) ?B" by code_simp
  have "reaches_bits ?T ?B [False, False, False, False, True, True]" by code_simp
  then have feas: "toggle_feasible ?T ?B" unfolding toggle_feasible_def by blast
  have ev: "solve_gf2 ?T ?B = Inr (PyInt 2)" by code_simp
  from C1_binary_solver_minimum [OF wf feas] obtain R where
    R: "min_hamming_weight ?T ?B R" "solve_gf2 ?T ?B = Inr (PyInt (int R))"
    "\<exists>A. parse_line_part1 ?T ?B = Inr (?T, A) \<and> gf2_solve_minweight ?T A = Inr (PyInt (int R))"
    by auto
  from R(2) ev have R2: "R = 2" by simp
  have m: "min_hamming_weight ?T ?B 2" using R(1) R2 by simp
  have g: "\<exists>A. parse_line_part1 ?T ?B = Inr (?T, A) \<and> gf2_solve_minweight ?T A = Inr (PyInt 2)"
    using R(3) R2 by simp
  show ?thesis by (intro conjI wf4 feas m ev g)
qed

text \<open>
  C2. The counter solver is to return the least number of presses that reaches the joltages.
  \<^verbatim>\<open>solve_joltage\<close> does not on a machine with a button that lists an index twice: on
  one counter at 2 with the single button (0,0) one press reaches the target, and
  \<^verbatim>\<open>solve_joltage\<close> returns 2, whatever its solvers answer within their contracts,
  because its matrix holds 1 where the button counts twice. \<^verbatim>\<open>solve_machine_minpresses\<close>
  returns 1 on the same machine. Where no button repeats an index \<^verbatim>\<open>solve_joltage\<close>
  does return the least number of presses (lemma \<open>solve_joltage_min_press_sum\<close>), and
  \<^verbatim>\<open>solve_machine_minpresses\<close> does on every feasible machine with one button at least
  (lemma \<open>solve_machine_minpresses_min_press_sum\<close>).
\<close>

theorem C2_solve_joltage_not_minimum:
  assumes "solvers_sound linprog milp [2] [[0, 0]]" and "cbc_sound cbc [2] [[2]]"
  shows "min_press_sum [2] [[0, 0]] 1 \<and>
         solve_joltage linprog milp [2] [[0, 0]] = Inr (PyInt 2) \<and>
         parse_line_part2 [2] [[0, 0]] = Inr ([2], [[2]]) \<and>
         solve_machine_minpresses cbc [2] [[2]] = Inr 1"
proof -
  have w: "indices_in_range (length [2 :: int]) [[0, 0]]" by (simp add: indices_in_range_def)
  have m: "ilp_minimum (length [[0, 0 :: nat]]) [[1]] [2] 2" using one_button_minimum by simp
  have j: "solve_joltage linprog milp [2] [[0, 0]] = Inr (PyInt 2)"
    by (rule solve_joltage_minimum [OF w assms(1) twice_matrix m])
  have p: "parse_line_part2 [2] [[0, 0]] = Inr ([2], [[2]])" by (simp add: parse_line_part2_def)
  have c: "solve_machine_minpresses cbc [2] [[2]] = Inr 1"
  proof (rule solve_machine_minpresses_minimum [OF _ _ _ assms(2)])
    show "ilp_minimum (length [[2 :: int]]) (constraint_rows [[2]]) (constraint_rhs [2] [[2]]) 1"
      unfolding double_button_constraints by (rule double_button_minimum)
  qed simp_all
  show ?thesis by (intro conjI twice_minimum j p c)
qed

theorem C2_solve_joltage_not_minimum_witness:
  "solvers_sound answer_two answer_two [2] [[0, 0]] \<and>
   cbc_sound answer_one [2] [[2]] \<and>
   reaches_counts [2] [[0, 0]] [1] \<and>
   min_press_sum [2] [[0, 0]] 1 \<and>
   solve_joltage answer_two answer_two [2] [[0, 0]] = Inr (PyInt 2) \<and>
   parse_line_part2 [2] [[0, 0]] = Inr ([2], [[2]]) \<and>
   solve_machine_minpresses answer_one [2] [[2]] = Inr 1"
proof -
  have r: "reaches_counts [2] [[0, 0]] [1]" by (simp add: twice_reaches)
  from C2_solve_joltage_not_minimum [OF answer_two_sound_twice answer_one_cbc_sound]
  have t: "min_press_sum [2] [[0, 0]] 1"
    "solve_joltage answer_two answer_two [2] [[0, 0]] = Inr (PyInt 2)"
    "parse_line_part2 [2] [[0, 0]] = Inr ([2], [[2]])"
    "solve_machine_minpresses answer_one [2] [[2]] = Inr 1" by blast+
  show ?thesis by (intro conjI answer_two_sound_twice answer_one_cbc_sound r t)
qed

text \<open>
  C3. The enumeration and the elimination agree on every machine with a feasible toggle
  system (and one button at least). They do not agree on every machine: where no subset
  reaches the target, \<^verbatim>\<open>solve_gf2\<close> returns 0 and \<^verbatim>\<open>gf2_solve_minweight\<close> returns
  \<^verbatim>\<open>float("inf")\<close>, as on the target \<^verbatim>\<open>[#.]\<close> with the single button (0,1).
\<close>

theorem C3_solvers_differ_when_infeasible:
  "solve_gf2 [True, False] [[0, 1]] = Inr (PyInt 0) \<and>
   parse_line_part1 [True, False] [[0, 1]] = Inr ([True, False], [[True, True]]) \<and>
   gf2_solve_minweight [True, False] [[True, True]] = Inr PyInf"
  by code_simp

theorem C3_solvers_agree_when_feasible:
  assumes "indices_in_range (length target) buttons" and "buttons \<noteq> []"
  shows "\<exists>A. parse_line_part1 target buttons = Inr (target, A) \<and>
           (if toggle_feasible target buttons
            then gf2_solve_minweight target A = solve_gf2 target buttons
            else solve_gf2 target buttons = Inr (PyInt 0) \<and>
                 gf2_solve_minweight target A = Inr PyInf)"
proof (cases "toggle_feasible target buttons")
  case True
  from solve_gf2_feasible [OF assms(1) True] obtain R where
    R: "solve_gf2 target buttons = Inr (PyInt (int R))" "min_hamming_weight target buttons R"
    by blast
  from gf2_machine [OF assms] True obtain A R' where
    A: "parse_line_part1 target buttons = Inr (target, A)"
    "gf2_solve_minweight target A = Inr (PyInt (int R'))"
    "min_hamming_weight target buttons R'" by auto
  from min_hamming_weight_unique [OF R(2) A(3)] R A True show ?thesis by auto
next
  case False
  from gf2_machine [OF assms] False solve_gf2_infeasible [OF assms(1) False]
  show ?thesis by auto
qed

theorem C3_solvers_agree_when_feasible_witness:
  "indices_in_range 5 [[0, 2, 3, 4], [2, 3], [0, 4], [0, 1, 2], [1, 2, 3, 4]] \<and>
   toggle_feasible [False, False, False, True, False]
     [[0, 2, 3, 4], [2, 3], [0, 4], [0, 1, 2], [1, 2, 3, 4]] \<and>
   (\<exists>A. parse_line_part1 [False, False, False, True, False]
           [[0, 2, 3, 4], [2, 3], [0, 4], [0, 1, 2], [1, 2, 3, 4]]
          = Inr ([False, False, False, True, False], A) \<and>
        gf2_solve_minweight [False, False, False, True, False] A = Inr (PyInt 3)) \<and>
   solve_gf2 [False, False, False, True, False]
     [[0, 2, 3, 4], [2, 3], [0, 4], [0, 1, 2], [1, 2, 3, 4]] = Inr (PyInt 3)"
proof -
  let ?T = "[False, False, False, True, False]"
  let ?B = "[[0, 2, 3, 4], [2, 3], [0, 4], [0, 1, 2], [1, 2, 3, 4 :: nat]]"
  have wf5: "indices_in_range 5 ?B" by code_simp
  have wf: "indices_in_range (length ?T) ?B" by code_simp
  have ne: "?B \<noteq> []" by simp
  have "reaches_bits ?T ?B [False, False, True, True, True]" by code_simp
  then have feas: "toggle_feasible ?T ?B" unfolding toggle_feasible_def by blast
  have ev: "solve_gf2 ?T ?B = Inr (PyInt 3)" by code_simp
  from C3_solvers_agree_when_feasible [OF wf ne] feas obtain A where
    "parse_line_part1 ?T ?B = Inr (?T, A)" "gf2_solve_minweight ?T A = solve_gf2 ?T ?B"
    by auto
  with ev have g: "\<exists>A. parse_line_part1 ?T ?B = Inr (?T, A) \<and>
      gf2_solve_minweight ?T A = Inr (PyInt 3)" by auto
  show ?thesis by (intro conjI wf5 feas g ev)
qed






text \<open>
  C6. The increment matrix holds, at (i, j), the number of times button j lists index i.
  \<^verbatim>\<open>parse_line_part2\<close> builds it so (lemma \<open>parse_line_part2_counts\<close>), but
  \<^verbatim>\<open>solve_joltage\<close> stores 1 however often the index is listed: on the machine with
  one counter and the single button (0,0) its matrix is [[1]], where the count is 2.
\<close>

theorem C6_joltage_matrix_ignores_repeats:
  "joltage_matrix 1 [[0, 0]] = Inr [[1]] \<and>
   parse_line_part2 [2] [[0, 0]] = Inr ([2], [[2]]) \<and>
   count_list [0, 0 :: nat] 0 = 2"
  by (simp add: joltage_matrix_def parse_line_part2_def)




text \<open>
  C8. On the three example lines the minima of the binary solver add up to 7, by
  \<^verbatim>\<open>solve_part1\<close> as by \<^verbatim>\<open>compute_total_part1\<close>, and the minima of the counter solver
  add up to 33, by \<^verbatim>\<open>solve_part2\<close> as by \<^verbatim>\<open>compute_total_part2\<close>, when the solver
  calls on the three machines keep their contracts (the minima are 10, 12 and 11).
\<close>

theorem C8_example_totals:
  assumes "\<forall>(lights, buttons, joltage) \<in> set example.
             solvers_sound linprog milp joltage buttons"
    and "\<forall>(lights, buttons, joltage) \<in> set example.
           \<forall>A. parse_line_part2 joltage buttons = Inr (joltage, A) \<longrightarrow> cbc_sound cbc joltage A"
  shows "solve_part1 example = Inr (PyInt 7) \<and>
         compute_total_part1 example = Inr (PyInt 7) \<and>
         solve_part2 linprog milp example = Inr (PyInt 33) \<and>
         compute_total_part2 cbc example = Inr 33"
proof -
  have p1: "solve_part1 example = Inr (PyInt 7)" by code_simp
  have t1: "compute_total_part1 example = Inr (PyInt 7)" by code_simp
  from assms(1) have s:
    "solvers_sound linprog milp [3, 5, 4, 7] [[3], [1, 3], [2], [2, 3], [0, 2], [0, 1]]"
    "solvers_sound linprog milp [7, 5, 12, 7, 2]
       [[0, 2, 3, 4], [2, 3], [0, 4], [0, 1, 2], [1, 2, 3, 4]]"
    "solvers_sound linprog milp [10, 11, 11, 5, 10, 5]
       [[0, 1, 2, 3, 4], [0, 3, 4], [0, 1, 2, 4, 5], [1, 2]]"
    by (simp_all add: example_def del: One_nat_def)
  have p2: "solve_part2 linprog milp example = Inr (PyInt 33)"
    by (simp add: solve_part2_def example_def example_joltage_values [OF s] del: One_nat_def)
  from assms(2) have c:
    "cbc_sound cbc [3, 5, 4, 7]
       [[0, 0, 0, 1], [0, 1, 0, 1], [0, 0, 1, 0], [0, 0, 1, 1], [1, 0, 1, 0], [1, 1, 0, 0]]"
    "cbc_sound cbc [7, 5, 12, 7, 2]
       [[1, 0, 1, 1, 1], [0, 0, 1, 1, 0], [1, 0, 0, 0, 1], [1, 1, 1, 0, 0], [0, 1, 1, 1, 1]]"
    "cbc_sound cbc [10, 11, 11, 5, 10, 5]
       [[1, 1, 1, 1, 1, 0], [1, 0, 0, 1, 1, 0], [1, 1, 1, 0, 1, 1], [0, 1, 1, 0, 0, 0]]"
    by (simp_all add: example_def example_rows del: One_nat_def)
  have t2: "compute_total_part2 cbc example = Inr 33"
    by (simp add: compute_total_part2_def example_def example_rows example_minpresses_values [OF c]
          del: One_nat_def)
  show ?thesis by (intro conjI p1 t1 p2 t2)
qed

theorem C8_example_totals_witness:
  "solvers_sound answer_example answer_example [3, 5, 4, 7]
     [[3], [1, 3], [2], [2, 3], [0, 2], [0, 1]] \<and>
   solvers_sound answer_example answer_example [7, 5, 12, 7, 2]
     [[0, 2, 3, 4], [2, 3], [0, 4], [0, 1, 2], [1, 2, 3, 4]] \<and>
   solvers_sound answer_example answer_example [10, 11, 11, 5, 10, 5]
     [[0, 1, 2, 3, 4], [0, 3, 4], [0, 1, 2, 4, 5], [1, 2]] \<and>
   cbc_sound answer_example [3, 5, 4, 7]
     [[0, 0, 0, 1], [0, 1, 0, 1], [0, 0, 1, 0], [0, 0, 1, 1], [1, 0, 1, 0], [1, 1, 0, 0]] \<and>
   cbc_sound answer_example [7, 5, 12, 7, 2]
     [[1, 0, 1, 1, 1], [0, 0, 1, 1, 0], [1, 0, 0, 0, 1], [1, 1, 1, 0, 0], [0, 1, 1, 1, 1]] \<and>
   cbc_sound answer_example [10, 11, 11, 5, 10, 5]
     [[1, 1, 1, 1, 1, 0], [1, 0, 0, 1, 1, 0], [1, 1, 1, 0, 1, 1], [0, 1, 1, 0, 0, 0]] \<and>
   solve_part1 example = Inr (PyInt 7) \<and>
   compute_total_part1 example = Inr (PyInt 7) \<and>
   solve_part2 answer_example answer_example example = Inr (PyInt 33) \<and>
   compute_total_part2 answer_example example = Inr 33"
proof -
  have a: "\<forall>(lights, buttons, joltage) \<in> set example.
      solvers_sound answer_example answer_example joltage buttons"
    by (simp add: example_def answer_example_sound del: One_nat_def)
  have b: "\<forall>(lights, buttons, joltage) \<in> set example.
      \<forall>A. parse_line_part2 joltage buttons = Inr (joltage, A) \<longrightarrow>
          cbc_sound answer_example joltage A"
    by (simp add: example_def example_rows answer_example_cbc_sound del: One_nat_def)
  from C8_example_totals [OF a b]
  have r: "solve_part1 example = Inr (PyInt 7)" "compute_total_part1 example = Inr (PyInt 7)"
    "solve_part2 answer_example answer_example example = Inr (PyInt 33)"
    "compute_total_part2 answer_example example = Inr 33" by blast+
  show ?thesis by (intro conjI answer_example_sound answer_example_cbc_sound r)
qed

text \<open>
  C9. Solving the same machine twice gives the same minimum. The binary solvers call no
  solver, draw no random number and iterate over lists and ranges only: they are functions
  of the parsed machine, and their outcome is fixed by the set of press vectors that reach
  the lights. The count they return is the weight of every press vector of least weight,
  whichever of them one takes (two on the example, one per button); with no such vector
  \<^verbatim>\<open>solve_gf2\<close> returns 0 and \<^verbatim>\<open>gf2_solve_minweight\<close> the float infinity; and with no
  button \<^verbatim>\<open>gf2_solve_minweight\<close> raises ValueError at every run. The counter solver
  depends on the answers of the external solvers, which may differ from run to run in the
  optimum they pick; whichever answers they give within their contracts, the value
  \<^verbatim>\<open>solve_joltage\<close> returns is the same. The example has two buttons on one counter: one
  pair of solvers answers the vertex (1, 0); the other the midpoint (1/2, 1/2), which no
  rounding repairs, and then the integer point (0, 1).
\<close>

theorem C9_same_machine_same_minimum:
  assumes "indices_in_range (length joltage) buttons"
    and "indices_in_range (length lights) buttons"
    and "solvers_sound linprog milp joltage buttons"
    and "solvers_sound linprog' milp' joltage buttons"
  shows "solve_joltage linprog milp joltage buttons = solve_joltage linprog' milp' joltage buttons \<and>
         (\<exists>A. parse_line_part1 lights buttons = Inr (lights, A) \<and>
            (\<forall>x. reaches_bits lights buttons x \<and>
                 (\<forall>y. reaches_bits lights buttons y \<longrightarrow> hamming_weight x \<le> hamming_weight y) \<longrightarrow>
                 solve_gf2 lights buttons = Inr (PyInt (int (hamming_weight x))) \<and>
                 gf2_solve_minweight lights A =
                   (if buttons = [] then Inl ValueError else Inr (PyInt (int (hamming_weight x))))) \<and>
            (\<not> toggle_feasible lights buttons \<longrightarrow>
                 solve_gf2 lights buttons = Inr (PyInt 0) \<and>
                 gf2_solve_minweight lights A =
                   (if buttons = [] then Inl ValueError else Inr PyInf)))"
proof -
  from solve_joltage_value [OF assms(1,3)] solve_joltage_value [OF assms(1,4)]
  have j: "solve_joltage linprog milp joltage buttons = solve_joltage linprog' milp' joltage buttons"
    by (auto split: if_splits dest: ilp_minimum_unique)
  from gf2_machine_outcome [OF assms(2)] obtain A where
    p: "parse_line_part1 lights buttons = Inr (lights, A)"
    and none: "buttons = [] \<Longrightarrow> gf2_solve_minweight lights A = Inl ValueError"
    and feas: "buttons \<noteq> [] \<Longrightarrow> toggle_feasible lights buttons \<Longrightarrow>
        \<exists>R. gf2_solve_minweight lights A = Inr (PyInt (int R)) \<and> min_hamming_weight lights buttons R"
    and infeas: "buttons \<noteq> [] \<Longrightarrow> \<not> toggle_feasible lights buttons \<Longrightarrow>
        gf2_solve_minweight lights A = Inr PyInf"
    by (auto split: if_splits)
  have a: "solve_gf2 lights buttons = Inr (PyInt (int (hamming_weight x))) \<and>
           gf2_solve_minweight lights A =
             (if buttons = [] then Inl ValueError else Inr (PyInt (int (hamming_weight x))))"
    if x: "reaches_bits lights buttons x"
      and least: "\<forall>y. reaches_bits lights buttons y \<longrightarrow> hamming_weight x \<le> hamming_weight y"
    for x
  proof -
    from x have f: "toggle_feasible lights buttons" unfolding toggle_feasible_def by blast
    from x least have m: "min_hamming_weight lights buttons (hamming_weight x)"
      unfolding min_hamming_weight_def by blast
    from solve_gf2_feasible [OF assms(2) f] obtain R where
      R: "solve_gf2 lights buttons = Inr (PyInt (int R))" "min_hamming_weight lights buttons R"
      by blast
    from min_hamming_weight_unique [OF R(2) m] R(1)
    have s: "solve_gf2 lights buttons = Inr (PyInt (int (hamming_weight x)))" by simp
    have g: "gf2_solve_minweight lights A = Inr (PyInt (int (hamming_weight x)))"
      if ne: "buttons \<noteq> []"
    proof -
      from feas [OF ne f] obtain R' where
        R': "gf2_solve_minweight lights A = Inr (PyInt (int R'))"
        "min_hamming_weight lights buttons R'" by blast
      from min_hamming_weight_unique [OF R'(2) m] R'(1) show ?thesis by simp
    qed
    from s g none show ?thesis by simp
  qed
  have b: "solve_gf2 lights buttons = Inr (PyInt 0) \<and>
           gf2_solve_minweight lights A = (if buttons = [] then Inl ValueError else Inr PyInf)"
    if nf: "\<not> toggle_feasible lights buttons"
    using solve_gf2_infeasible [OF assms(2) nf] none infeas nf by simp
  from j p a b show ?thesis by blast
qed

theorem C9_same_machine_same_minimum_witness:
  "indices_in_range 1 [[0], [0]] \<and>
   solvers_sound (\<lambda>c A b. Some [1, 0]) (\<lambda>c A b. Some [1, 0]) [1] [[0], [0]] \<and>
   solvers_sound (\<lambda>c A b. Some [1 / 2, 1 / 2]) (\<lambda>c A b. Some [0, 1]) [1] [[0], [0]] \<and>
   solve_joltage (\<lambda>c A b. Some [1, 0]) (\<lambda>c A b. Some [1, 0]) [1] [[0], [0]] = Inr (PyInt 1) \<and>
   solve_joltage (\<lambda>c A b. Some [1 / 2, 1 / 2]) (\<lambda>c A b. Some [0, 1]) [1] [[0], [0]] = Inr (PyInt 1) \<and>
   reaches_bits [True] [[0], [0]] [True, False] \<and>
   reaches_bits [True] [[0], [0]] [False, True] \<and>
   min_hamming_weight [True] [[0], [0]] 1 \<and>
   solve_gf2 [True] [[0], [0]] = Inr (PyInt 1) \<and>
   parse_line_part1 [True] [[0], [0]] = Inr ([True], [[True], [True]]) \<and>
   gf2_solve_minweight [True] [[True], [True]] = Inr (PyInt 1)"
proof -
  have w1: "indices_in_range 1 [[0], [0]]" by (simp add: indices_in_range_def)
  then have wf: "indices_in_range (length [1 :: int]) [[0], [0]]"
    and wl: "indices_in_range (length [True]) [[0], [0]]" by simp_all
  have ev: "solve_joltage (\<lambda>c A b. Some [1, 0]) (\<lambda>c A b. Some [1, 0]) [1] [[0], [0]] = Inr (PyInt 1)"
    by (simp add: solve_joltage_def joltage_matrix_def accepts_def mat_vec_def np_round_def)
  have r1: "reaches_bits [True] [[0], [0]] [True, False]" by code_simp
  have r2: "reaches_bits [True] [[0], [0]] [False, True]" by code_simp
  have h: "hamming_weight [True, False] = 1" "hamming_weight [False, True] = 1"
    by (simp_all add: hamming_weight_def)
  have g: "solve_gf2 [True] [[0], [0]] = Inr (PyInt 1)" by code_simp
  from r1 have feas: "toggle_feasible [True] [[0], [0]]" unfolding toggle_feasible_def by blast
  from solve_gf2_feasible [OF wl feas] g have m: "min_hamming_weight [True] [[0], [0]] 1"
    by auto
  then have least: "\<forall>y. reaches_bits [True] [[0], [0]] y \<longrightarrow>
      hamming_weight [True, False] \<le> hamming_weight y"
    unfolding min_hamming_weight_def h by blast
  have p: "parse_line_part1 [True] [[0], [0]] = Inr ([True], [[True], [True]])" by code_simp
  have ne: "[[0], [0 :: nat]] \<noteq> []" by simp
  note t = C9_same_machine_same_minimum [OF wf wl twin_sound_vertex twin_sound_split]
  from t ev
  have ev': "solve_joltage (\<lambda>c A b. Some [1 / 2, 1 / 2]) (\<lambda>c A b. Some [0, 1]) [1] [[0], [0]]
      = Inr (PyInt 1)" by simp
  from t obtain A where A: "parse_line_part1 [True] [[0], [0]] = Inr ([True], A)"
    and v: "\<forall>x. reaches_bits [True] [[0], [0]] x \<and>
         (\<forall>y. reaches_bits [True] [[0], [0]] y \<longrightarrow> hamming_weight x \<le> hamming_weight y) \<longrightarrow>
         solve_gf2 [True] [[0], [0]] = Inr (PyInt (int (hamming_weight x))) \<and>
         gf2_solve_minweight [True] A =
           (if [[0], [0 :: nat]] = [] then Inl ValueError else Inr (PyInt (int (hamming_weight x))))"
    by blast
  from A p have A': "A = [[True], [True]]" by simp
  from v r1 least have "gf2_solve_minweight [True] A =
      (if [[0], [0 :: nat]] = [] then Inl ValueError
       else Inr (PyInt (int (hamming_weight [True, False]))))" by blast
  then have gm: "gf2_solve_minweight [True] [[True], [True]] = Inr (PyInt 1)"
    unfolding A' h by simp
  show ?thesis
    by (intro conjI w1 twin_sound_vertex twin_sound_split ev ev' r1 r2 m g p gm)
qed



end
